theory Spec2Isabelle
  imports Complex_Main
begin

section \<open>Coordinates\<close>

text \<open>
  \<^verbatim>\<open>coord_t\<close> is the engine's 64-bit signed coordinate type: an \<^typ>\<open>int\<close> from \<open>coord_min\<close>
  to \<open>coord_max\<close>, the latter being \<^verbatim>\<open>std::numeric_limits<coord_t>::max()\<close>. C++ leaves
  a signed overflow undefined; on the two's complement machines the engine runs on, the
  sum or product wraps around, and the arithmetic of the beading strategy is written with
  that wrap-around. The simplifier's squared lengths and squared tolerances are written as
  the mathematical values: the properties below use them only as the values that the
  branch conditions compare.
\<close>

type_synonym coord_t = int

definition coord_max :: coord_t where
  "coord_max = 2 ^ 63 - 1"

definition coord_min :: coord_t where
  "coord_min = - (2 ^ 63)"

definition wrap64 :: "int \<Rightarrow> coord_t" where
  "wrap64 x = (x + 2 ^ 63) mod 2 ^ 64 - 2 ^ 63"

definition cadd :: "coord_t \<Rightarrow> coord_t \<Rightarrow> coord_t" where
  "cadd a b = wrap64 (a + b)"

definition cmul :: "coord_t \<Rightarrow> coord_t \<Rightarrow> coord_t" where
  "cmul a b = wrap64 (a * b)"

text \<open>
  C++ integer division truncates towards zero; \<open>div\<close> on \<^typ>\<open>int\<close> rounds down. (The
  quotient overflows only for \<open>coord_min\<close> divided by \<open>-1\<close>; the divisors below are a
  positive bead count, 2 and a width that is not 0.)
\<close>

definition cdiv :: "coord_t \<Rightarrow> coord_t \<Rightarrow> coord_t" where
  "cdiv a b = sgn a * sgn b * (\<bar>a\<bar> div \<bar>b\<bar>)"

section \<open>Double precision\<close>

text \<open>
  A floating-point operation of the source gives the exact result rounded to the nearest
  double, a tie going to the even significand (IEEE 754 binary64: 53 significant bits,
  least exponent \<open>-1022\<close>, below which the spacing stays \<open>2\<^sup>-\<^sup>1\<^sup>0\<^sup>7\<^sup>4\<close>). \<open>round_even\<close> rounds
  to the nearest integer, \<open>ulp x\<close> is the spacing of the doubles around \<open>x\<close>, and
  \<open>round_double\<close> rounds a real number to a double. A magnitude above the greatest double
  has no double near it (the operation gives an infinity); such a value is far outside
  the coordinates, and \<open>to_coord\<close> has no value for it.
\<close>

definition round_even :: "real \<Rightarrow> int" where
  "round_even r =
     (let f = \<lfloor>r\<rfloor>; d = r - of_int f
      in if d < 1 / 2 then f
         else if 1 / 2 < d then f + 1
         else if even f then f else f + 1)"

definition double_exponent :: "real \<Rightarrow> int" where
  "double_exponent x = max \<lfloor>log 2 x\<rfloor> (- 1022)"

definition ulp :: "real \<Rightarrow> real" where
  "ulp x = 2 powr of_int (double_exponent x - 52)"

definition round_magnitude :: "real \<Rightarrow> real" where
  "round_magnitude x = (if x = 0 then 0 else ulp x * of_int (round_even (x / ulp x)))"

definition round_double :: "real \<Rightarrow> real" where
  "round_double x = (if x < 0 then - round_magnitude (- x) else round_magnitude x)"

text \<open>
  The conversion of a double to \<^verbatim>\<open>coord_t\<close> drops the fraction; it is undefined when the
  result is not a coordinate, which is the value \<open>None\<close>.
\<close>

definition to_coord :: "real \<Rightarrow> coord_t option" where
  "to_coord x =
     (let k = (if 0 \<le> x then \<lfloor>x\<rfloor> else \<lceil>x\<rceil>)
      in if coord_min \<le> k \<and> k \<le> coord_max then Some k else None)"

section \<open>DistributedBeadingStrategy\<close>

record Beading =
  total_thickness :: coord_t
  bead_widths :: "coord_t list"
  toolpath_locations :: "coord_t list"
  left_over :: coord_t

text \<open>
  The two members of the strategy that the functions read. Their declarations are in
  \<^verbatim>\<open>BeadingStrategy.h\<close>, which is not among the sources: \<open>optimal_width\<close> is a coordinate
  and \<open>wall_transition_threshold\<close> a fraction of it, a double.
\<close>

record DistributedBeadingStrategy =
  optimal_width :: coord_t
  wall_transition_threshold :: real

text \<open>
  \<^verbatim>\<open>bead_widths.resize(bead_count, thickness / bead_count)\<close> on the empty vector gives
  \<open>bead_count\<close> copies; the loop appends one location for each
  \<open>bead_idx = 0, ..., bead_count - 1\<close>.
\<close>

definition compute :: "coord_t \<Rightarrow> coord_t \<Rightarrow> Beading" where
  "compute thickness bead_count =
     (if bead_count > 0 then
        \<lparr> total_thickness = thickness,
          bead_widths = replicate (nat bead_count) (cdiv thickness bead_count),
          toolpath_locations =
            map (\<lambda>bead_idx. cdiv (cdiv (cmul thickness (cadd (cmul bead_idx 2) 1)) bead_count) 2)
                [0 .. bead_count - 1],
          left_over = 0 \<rparr>
      else
        \<lparr> total_thickness = thickness,
          bead_widths = [],
          toolpath_locations = [],
          left_over = thickness \<rparr>)"

definition getOptimalThickness :: "DistributedBeadingStrategy \<Rightarrow> coord_t \<Rightarrow> coord_t" where
  "getOptimalThickness s bead_count = cmul bead_count (optimal_width s)"

text \<open>
  The product of the bead count and the width is a coordinate, converted to a double for
  the sum; the width is converted to a double for the product with the threshold; the sum
  is converted to a coordinate when it is returned.
\<close>

definition getTransitionThickness :: "DistributedBeadingStrategy \<Rightarrow> coord_t \<Rightarrow> coord_t option" where
  "getTransitionThickness s lower_bead_count =
     to_coord
       (round_double
          (round_double (of_int (cmul lower_bead_count (optimal_width s)))
           + round_double (round_double (of_int (optimal_width s)) * wall_transition_threshold s)))"

text \<open>A division by the width 0 is undefined, which is the value \<open>None\<close>.\<close>

definition getOptimalBeadCount :: "DistributedBeadingStrategy \<Rightarrow> coord_t \<Rightarrow> coord_t option" where
  "getOptimalBeadCount s thickness =
     (if optimal_width s = 0 then None
      else Some (cdiv (cadd thickness (cdiv (optimal_width s) 2)) (optimal_width s)))"


section \<open>Geometric primitives\<close>

text \<open>A point of the integer grid (\<^verbatim>\<open>Point\<close>, with members \<^verbatim>\<open>X\<close> and \<^verbatim>\<open>Y\<close>).\<close>

datatype Point = Point (X: coord_t) (Y: coord_t)

text \<open>
  Modelled from the spec: the difference of two points (\<^verbatim>\<open>operator-\<close> of the point type,
  declared in \<^verbatim>\<open>IntPoint.h\<close>, which is not among the sources), taken componentwise.
\<close>

definition psub :: "Point \<Rightarrow> Point \<Rightarrow> Point" where
  "psub a b = Point (X a - X b) (Y a - Y b)"

text \<open>
  Modelled from the spec: \<^verbatim>\<open>vSize2\<close> (\<^verbatim>\<open>IntPoint.h\<close> is not among the sources) is the squared
  length of a vector, the spec's squared-distance primitive.
\<close>

definition vSize2 :: "Point \<Rightarrow> coord_t" where
  "vSize2 p = X p * X p + Y p * Y p"

text \<open>
  Modelled from the spec: the cross product of two vectors, which the point-to-line
  distance and the line intersection below are written with (\<^verbatim>\<open>IntPoint.h\<close> is not among
  the sources).
\<close>

definition cross :: "Point \<Rightarrow> Point \<Rightarrow> coord_t" where
  "cross u v = X u * Y v - Y u * X v"

text \<open>
  Modelled from the spec: \<^verbatim>\<open>LinearAlg2D::getDist2FromLine\<close> (\<^verbatim>\<open>linearAlg2D.h\<close> is not
  among the sources) is the squared perpendicular distance from \<open>p\<close> to the line through
  \<open>a\<close> and \<open>b\<close>, here \<open>cross\<^sup>2 / length\<^sup>2\<close> rounded down to a coordinate; for
  \<open>a = b\<close> the squared distance to that point.
\<close>

definition getDist2FromLine :: "Point \<Rightarrow> Point \<Rightarrow> Point \<Rightarrow> coord_t" where
  "getDist2FromLine p a b =
     (if vSize2 (psub b a) = 0 then vSize2 (psub p a)
      else (cross (psub b a) (psub p a) * cross (psub b a) (psub p a)) div vSize2 (psub b a))"

text \<open>
  Modelled from the spec: the rounding of an intersection coordinate to the grid, a
  division rounded to the nearest integer, halves away from zero (the spec says nothing
  on the rounding, and no property below depends on it).
\<close>

definition round_divide :: "coord_t \<Rightarrow> coord_t \<Rightarrow> coord_t" where
  "round_divide a b = sgn a * sgn b * ((2 * \<bar>a\<bar> + \<bar>b\<bar>) div (2 * \<bar>b\<bar>))"

text \<open>
  Modelled from the spec: \<^verbatim>\<open>LinearAlg2D::lineLineIntersection\<close> (\<^verbatim>\<open>linearAlg2D.h\<close> is not
  among the sources) gives the intersection point of the line through \<open>a\<close>, \<open>b\<close> with
  the line through \<open>c\<close>, \<open>d\<close>, and reports parallel lines as having none. The point is
  the exact intersection rounded to the grid.
\<close>

definition lineLineIntersection :: "Point \<Rightarrow> Point \<Rightarrow> Point \<Rightarrow> Point \<Rightarrow> Point option" where
  "lineLineIntersection a b c d =
     (let l1_delta = psub b a;
          l2_delta = psub d c;
          divisor = cross l1_delta l2_delta
      in if divisor = 0 then None
         else let l1_parametric = cross l2_delta (psub a c)
              in Some (Point (X a + round_divide (l1_parametric * X l1_delta) divisor)
                             (Y a + round_divide (l1_parametric * Y l1_delta) divisor)))"

section \<open>Simplify\<close>

text \<open>
  The members of a \<^verbatim>\<open>Simplify\<close> object. \<open>min_resolution\<close> is a constant of
  \<^verbatim>\<open>Simplify.h\<close>, which is not among the sources, and is kept as a parameter.
\<close>

record Simplify =
  max_resolution :: coord_t
  max_deviation :: coord_t
  max_area_deviation :: coord_t
  min_resolution :: coord_t

subsection \<open>Neighbours that are not deleted\<close>

text \<open>
  The body of the \<^verbatim>\<open>for\<close> loop of \<^verbatim>\<open>nextNotDeleted\<close>, entered with the index already
  advanced once. It runs for ever when every flag is set, which is the value \<open>None\<close>.
\<close>

partial_function (option) nextNotDeleted_loop :: "nat \<Rightarrow> bool list \<Rightarrow> nat option" where
  "nextNotDeleted_loop index to_delete =
     (if to_delete ! index
      then nextNotDeleted_loop ((index + 1) mod length to_delete) to_delete
      else Some index)"

partial_function (option) previousNotDeleted_loop :: "nat \<Rightarrow> bool list \<Rightarrow> nat option" where
  "previousNotDeleted_loop index to_delete =
     (if to_delete ! index
      then previousNotDeleted_loop ((index + length to_delete - 1) mod length to_delete) to_delete
      else Some index)"

declare nextNotDeleted_loop.simps [code]
declare previousNotDeleted_loop.simps [code]

text \<open>A remainder by the size 0 is undefined in C++ and is a failure of the model.\<close>

definition nextNotDeleted :: "nat \<Rightarrow> bool list \<Rightarrow> nat option" where
  "nextNotDeleted index to_delete =
     (let size = length to_delete
      in if size = 0 then None
         else nextNotDeleted_loop ((index + 1) mod size) to_delete)"

definition previousNotDeleted :: "nat \<Rightarrow> bool list \<Rightarrow> nat option" where
  "previousNotDeleted index to_delete =
     (let size = length to_delete
      in if size = 0 then None
         else previousNotDeleted_loop ((index + size - 1) mod size) to_delete)"

subsection \<open>Importance of a vertex\<close>

text \<open>
  Indices are \<^verbatim>\<open>size_t\<close> values, here natural numbers; \<^verbatim>\<open>poly_size - 1\<close> is only compared
  with an index. The vertices read are those of the index given and of the neighbours
  found, which are below the size. A neighbour search that does not return leaves the
  importance without a value.
\<close>

definition importance ::
  "Simplify \<Rightarrow> Point list \<Rightarrow> bool list \<Rightarrow> nat \<Rightarrow> bool \<Rightarrow> coord_t option" where
  "importance s polygon to_delete index is_closed =
     (let poly_size = length polygon
      in if \<not> is_closed \<and> (index = 0 \<or> index = poly_size - 1) then Some coord_max
         else
           case previousNotDeleted index to_delete of
             None \<Rightarrow> None
           | Some before_idx \<Rightarrow>
              (case nextNotDeleted index to_delete of
                 None \<Rightarrow> None
               | Some after_idx \<Rightarrow>
                   let vertex = polygon ! index;
                       before_pos = polygon ! before_idx;
                       after_pos = polygon ! after_idx;
                       deviation2 = getDist2FromLine vertex before_pos after_pos
                   in if deviation2 \<le> min_resolution s * min_resolution s then Some deviation2
                      else if vSize2 (psub before_pos vertex) > max_resolution s * max_resolution s
                            \<and> vSize2 (psub after_pos vertex) > max_resolution s * max_resolution s
                           then Some coord_max
                      else Some deviation2))"

subsection \<open>Removing one vertex\<close>

text \<open>
  The end of \<^verbatim>\<open>remove\<close>, shared by its two branches: intersect the two edges around the
  short edge and, when the intersection is close enough, delete the vertex and move the
  other end of the short edge (index \<open>moved\<close>) to the intersection.
\<close>

definition remove_intersect ::
  "Simplify \<Rightarrow> Point list \<Rightarrow> bool list \<Rightarrow> nat \<Rightarrow> nat
     \<Rightarrow> Point \<Rightarrow> Point \<Rightarrow> Point \<Rightarrow> Point \<Rightarrow> Point list \<times> bool list" where
  "remove_intersect s polygon to_delete vertex moved before_from before_to after_from after_to =
     (case lineLineIntersection before_from before_to after_from after_to of
        None \<Rightarrow> (polygon, to_delete)
      | Some intersection \<Rightarrow>
          let intersection_deviation = getDist2FromLine intersection before_to after_from
          in if intersection_deviation \<le> max_deviation s * max_deviation s
             then (polygon[moved := intersection], to_delete[vertex := True])
             else (polygon, to_delete))"

text \<open>
  \<open>before_idx\<close> and \<open>after_idx\<close> are the indices \<^verbatim>\<open>before\<close> and \<^verbatim>\<open>after\<close> of the
  source. A vertex that is not removed leaves both vectors as they were.
\<close>

definition remove ::
  "Simplify \<Rightarrow> Point list \<Rightarrow> bool list \<Rightarrow> nat \<Rightarrow> coord_t \<Rightarrow> bool
     \<Rightarrow> (Point list \<times> bool list) option" where
  "remove s polygon to_delete vertex deviation2 is_closed =
     (if deviation2 \<le> min_resolution s * min_resolution s
      then Some (polygon, to_delete[vertex := True])
      else
        case previousNotDeleted vertex to_delete of
          None \<Rightarrow> None
        | Some before_idx \<Rightarrow>
           (case nextNotDeleted vertex to_delete of
              None \<Rightarrow> None
            | Some after_idx \<Rightarrow>
                let vertex_position = polygon ! vertex;
                    before_position = polygon ! before_idx;
                    after_position = polygon ! after_idx;
                    length2_before = vSize2 (psub vertex_position before_position);
                    length2_after = vSize2 (psub vertex_position after_position)
                in if length2_before \<le> max_resolution s * max_resolution s
                      \<and> length2_after \<le> max_resolution s * max_resolution s
                   then Some (polygon, to_delete[vertex := True])
                   else if length2_before \<le> length2_after then
                     (if \<not> is_closed \<and> before_idx = 0 then Some (polygon, to_delete)
                      else
                        (case previousNotDeleted before_idx to_delete of
                           None \<Rightarrow> None
                         | Some before_before \<Rightarrow>
                             Some (remove_intersect s polygon to_delete vertex before_idx
                                     (polygon ! before_before) (polygon ! before_idx)
                                     (polygon ! vertex) (polygon ! after_idx))))
                   else
                     (if \<not> is_closed \<and> after_idx = length polygon - 1 then Some (polygon, to_delete)
                      else
                        (case nextNotDeleted after_idx to_delete of
                           None \<Rightarrow> None
                         | Some after_after \<Rightarrow>
                             Some (remove_intersect s polygon to_delete vertex after_idx
                                     (polygon ! before_idx) (polygon ! vertex)
                                     (polygon ! after_idx) (polygon ! after_after))))))"

subsection \<open>The priority queue\<close>

text \<open>
  \<^verbatim>\<open>by_importance\<close> holds pairs (index, importance). The comparator is the queue's
  "less than", and \<^verbatim>\<open>top()\<close> is the greatest entry under it: the one of least
  importance, and of least index among those. The comparator is a strict total order on
  pairs, so the top is determined by the entries held, which a list keeps here.
\<close>

type_synonym entry = "nat \<times> coord_t"

definition comparator :: "entry \<Rightarrow> entry \<Rightarrow> bool" where
  "comparator vertex_a vertex_b =
     (snd vertex_a > snd vertex_b \<or> (snd vertex_a = snd vertex_b \<and> fst vertex_a > fst vertex_b))"

fun top_entry :: "entry list \<Rightarrow> entry" where
  "top_entry [] = (0, 0)"
| "top_entry [x] = x"
| "top_entry (x # y # ys) = (let t = top_entry (y # ys) in if comparator x t then t else x)"

definition pop :: "entry list \<Rightarrow> entry list" where
  "pop q = remove1 (top_entry q) q"

definition emplace :: "nat \<Rightarrow> coord_t \<Rightarrow> entry list \<Rightarrow> entry list" where
  "emplace index vertex_importance q = (index, vertex_importance) # q"

text \<open>The loop that adds the initial points, for \<open>i\<close> from 0 below the size.\<close>

fun add_initial ::
  "Simplify \<Rightarrow> Point list \<Rightarrow> bool list \<Rightarrow> bool \<Rightarrow> nat list \<Rightarrow> entry list \<Rightarrow> entry list option" where
  "add_initial s polygon to_delete is_closed [] by_importance = Some by_importance"
| "add_initial s polygon to_delete is_closed (i # is) by_importance =
     (case importance s polygon to_delete i is_closed of
        None \<Rightarrow> None
      | Some vertex_importance \<Rightarrow>
          add_initial s polygon to_delete is_closed is (emplace i vertex_importance by_importance))"

subsection \<open>The removal loop\<close>

text \<open>
  One turn of the \<^verbatim>\<open>while\<close> loop, on the copy \<open>result\<close> of the polygon, the marks and
  the queue: pop the top entry, re-insert it when its importance has changed, and
  otherwise call \<^verbatim>\<open>remove\<close> when the importance is within the allowed deviation.
\<close>

definition loop_body ::
  "Simplify \<Rightarrow> bool \<Rightarrow> Point list \<Rightarrow> bool list \<Rightarrow> entry list
     \<Rightarrow> (Point list \<times> bool list \<times> entry list) option" where
  "loop_body s is_closed result to_delete by_importance =
     (let vertex = top_entry by_importance;
          popped = pop by_importance
      in case importance s result to_delete (fst vertex) is_closed of
           None \<Rightarrow> None
         | Some vertex_importance \<Rightarrow>
             if vertex_importance \<noteq> snd vertex
             then Some (result, to_delete, emplace (fst vertex) vertex_importance popped)
             else if vertex_importance \<le> max_deviation s * max_deviation s
             then (case remove s result to_delete (fst vertex) vertex_importance is_closed of
                     None \<Rightarrow> None
                   | Some (result', to_delete') \<Rightarrow> Some (result', to_delete', popped))
             else Some (result, to_delete, popped))"

text \<open>
  An entry is stale when the importance stored with it is no longer the importance of its
  vertex. A turn of the loop either shortens the queue or replaces a stale entry by a
  fresh one, which is why the loop ends.
\<close>

definition stale :: "Simplify \<Rightarrow> bool \<Rightarrow> Point list \<Rightarrow> bool list \<Rightarrow> entry \<Rightarrow> bool" where
  "stale s is_closed result to_delete e =
     (importance s result to_delete (fst e) is_closed \<noteq> Some (snd e))"

definition loop_order ::
  "((Simplify \<times> bool \<times> Point list \<times> bool list \<times> entry list)
    \<times> (Simplify \<times> bool \<times> Point list \<times> bool list \<times> entry list)) set" where
  "loop_order =
     (\<lambda>(s, c, r, d, q). length q) <*mlex*>
       measure (\<lambda>(s, c, r, d, q). length (filter (stale s c r d) q))"

lemma top_entry_in_set: "q \<noteq> [] \<Longrightarrow> top_entry q \<in> set q"
  by (induction q rule: top_entry.induct) (auto simp: Let_def)

lemma length_pop: "q \<noteq> [] \<Longrightarrow> length (pop q) = length q - 1"
  by (simp add: pop_def length_remove1 top_entry_in_set)

lemma length_pop_less: "3 < length q \<Longrightarrow> length (pop q) < length q"
  by (cases q) (simp_all add: length_pop)

lemma stale_count_reinsert:
  assumes "q \<noteq> []" and "importance s result to_delete (fst (top_entry q)) is_closed = Some v"
    and "v \<noteq> snd (top_entry q)"
  shows "length (filter (stale s is_closed result to_delete) (emplace (fst (top_entry q)) v (pop q)))
           < length (filter (stale s is_closed result to_delete) q)"
proof -
  let ?P = "stale s is_closed result to_delete"
  have st: "?P (top_entry q)" using assms by (simp add: stale_def)
  have fresh: "\<not> ?P (fst (top_entry q), v)" using assms by (simp add: stale_def)
  have "top_entry q \<in> set q" using assms(1) by (rule top_entry_in_set)
  with st have mem: "top_entry q \<in> set (filter ?P q)" by simp
  have "filter ?P (pop q) = remove1 (top_entry q) (filter ?P q)"
    by (simp add: pop_def filter_remove1)
  then have "length (filter ?P (pop q)) = length (filter ?P q) - 1"
    using mem by (simp add: length_remove1)
  moreover have "0 < length (filter ?P q)" using mem by (rule length_pos_if_in_set)
  ultimately show ?thesis using fresh by (simp add: emplace_def)
qed

lemma loop_body_decreases:
  assumes len: "3 < length q"
    and body: "loop_body s is_closed result to_delete q = Some (result', to_delete', q')"
  shows "((s, is_closed, result', to_delete', q'), (s, is_closed, result, to_delete, q)) \<in> loop_order"
proof -
  from len have ne: "q \<noteq> []" by auto
  obtain v where imp: "importance s result to_delete (fst (top_entry q)) is_closed = Some v"
    using body by (auto simp: loop_body_def Let_def split: option.splits)
  show ?thesis
  proof (cases "v \<noteq> snd (top_entry q)")
    case True
    with body imp have eq: "result' = result" "to_delete' = to_delete"
        "q' = emplace (fst (top_entry q)) v (pop q)"
      by (simp_all add: loop_body_def Let_def)
    have "length q' \<le> length q" using ne by (simp add: eq emplace_def length_pop)
    moreover have "length (filter (stale s is_closed result to_delete) q')
                     < length (filter (stale s is_closed result to_delete) q)"
      unfolding eq using ne imp True by (rule stale_count_reinsert)
    ultimately show ?thesis
      unfolding loop_order_def eq by (intro mlex_leq) simp_all
  next
    case False
    with body imp have "q' = pop q"
      by (auto simp: loop_body_def Let_def split: if_splits option.splits)
    then have "length q' < length q" using len by (simp add: length_pop_less)
    then show ?thesis unfolding loop_order_def by (intro mlex_less) simp
  qed
qed

function simplify_loop ::
  "Simplify \<Rightarrow> bool \<Rightarrow> Point list \<Rightarrow> bool list \<Rightarrow> entry list
     \<Rightarrow> (Point list \<times> bool list) option" where
  "simplify_loop s is_closed result to_delete by_importance =
     (if length by_importance > 3 then
        (case loop_body s is_closed result to_delete by_importance of
           None \<Rightarrow> None
         | Some (result', to_delete', by_importance') \<Rightarrow>
             simplify_loop s is_closed result' to_delete' by_importance')
      else Some (result, to_delete))"
  by pat_completeness auto
termination
proof (relation loop_order)
  show "wf loop_order" by (simp add: loop_order_def wf_mlex)
next
  fix s is_closed result to_delete by_importance x2 x y xa ya
  assume "3 < length by_importance"
    and "loop_body s is_closed result to_delete by_importance = Some x2"
    and "(x, y) = x2" and "(xa, ya) = y"
  then show "((s, is_closed, x, xa, ya), (s, is_closed, result, to_delete, by_importance))
               \<in> loop_order"
    by (intro loop_body_decreases) auto
qed

subsection \<open>simplify\<close>

text \<open>The final sweep: the vertices that are not marked, in their order.\<close>

definition filtered :: "Point list \<Rightarrow> bool list \<Rightarrow> Point list" where
  "filtered result to_delete = map (\<lambda>i. result ! i) (filter (\<lambda>i. \<not> to_delete ! i) [0 ..< length result])"

definition simplify :: "Simplify \<Rightarrow> Point list \<Rightarrow> bool \<Rightarrow> Point list option" where
  "simplify s polygon is_closed =
     (let min_size = (if is_closed then 2 else 3 :: nat)
      in if length polygon < min_size then Some []
         else if length polygon = min_size then Some polygon
         else
           let to_delete = replicate (length polygon) False
           in case add_initial s polygon to_delete is_closed [0 ..< length polygon] [] of
                None \<Rightarrow> None
              | Some by_importance \<Rightarrow>
                 (case simplify_loop s is_closed polygon to_delete by_importance of
                    None \<Rightarrow> None
                  | Some (result, to_delete') \<Rightarrow> Some (filtered result to_delete')))"

subsection \<open>Distance to a contour\<close>

text \<open>
  The deviation of a point from a contour, as the spec's deviation bound measures it, in
  exact arithmetic: the edges of the contour (with the closing edge for a polygon), the
  squared distance from a point to the line through an edge, and whether some edge's line
  passes within \<open>dev\<close> of the point. The line through an edge is never farther from a
  point than the edge itself, so a point that is not within \<open>dev\<close> of any of the lines
  is not within \<open>dev\<close> of the contour.
\<close>

definition edges :: "Point list \<Rightarrow> bool \<Rightarrow> (Point \<times> Point) list" where
  "edges contour is_closed =
     zip contour (tl contour)
       @ (if is_closed \<and> contour \<noteq> [] then [(last contour, hd contour)] else [])"

definition line_dist2 :: "Point \<Rightarrow> Point \<Rightarrow> Point \<Rightarrow> real" where
  "line_dist2 p a b =
     (if vSize2 (psub b a) = 0 then of_int (vSize2 (psub p a))
      else of_int (cross (psub b a) (psub p a) * cross (psub b a) (psub p a))
             / of_int (vSize2 (psub b a)))"

definition within_deviation :: "coord_t \<Rightarrow> Point \<Rightarrow> Point list \<Rightarrow> bool \<Rightarrow> bool" where
  "within_deviation dev p contour is_closed =
     (\<exists>(a, b) \<in> set (edges contour is_closed). line_dist2 p a b \<le> of_int (dev * dev))"

section \<open>Properties of the beading strategy\<close>

subsection \<open>Coordinates that do not overflow\<close>

lemma wrap64_id: "- (2 ^ 63) \<le> x \<Longrightarrow> x \<le> coord_max \<Longrightarrow> wrap64 x = x"
  by (simp add: wrap64_def coord_max_def)

lemma cdiv_nonneg: "0 \<le> a \<Longrightarrow> 0 < b \<Longrightarrow> cdiv a b = a div b"
  by (cases "a = 0") (simp_all add: cdiv_def)

lemma cdiv_cdiv_2:
  assumes "0 \<le> a" "0 < b"
  shows "cdiv (cdiv a b) 2 = cdiv a (2 * b)"
proof -
  have "0 \<le> a div b" using assms by (simp add: pos_imp_zdiv_nonneg_iff)
  then have "cdiv (cdiv a b) 2 = a div b div 2"
    using assms by (simp add: cdiv_nonneg)
  also have "\<dots> = a div (b * 2)"
    by (simp add: zdiv_zmult2_eq)
  also have "\<dots> = cdiv a (2 * b)"
    using assms by (simp add: cdiv_nonneg mult.commute)
  finally show ?thesis .
qed

lemma cmul_small: "- (2 ^ 63) \<le> a * b \<Longrightarrow> a * b \<le> coord_max \<Longrightarrow> cmul a b = a * b"
  unfolding cmul_def by (rule wrap64_id)

lemma cadd_small: "- (2 ^ 63) \<le> a + b \<Longrightarrow> a + b \<le> coord_max \<Longrightarrow> cadd a b = a + b"
  unfolding cadd_def by (rule wrap64_id)

subsection \<open>The scenario of 4 beads in a thickness of 10\<close>

lemma location_10_4:
  "cdiv (cdiv (cmul 10 (cadd (cmul 0 2) 1)) 4) 2 = 1"
  "cdiv (cdiv (cmul 10 (cadd (cmul 1 2) 1)) 4) 2 = 3"
  "cdiv (cdiv (cmul 10 (cadd (cmul 2 2) 1)) 4) 2 = 6"
  "cdiv (cdiv (cmul 10 (cadd (cmul 3 2) 1)) 4) 2 = 8"
  by (simp_all add: cmul_small cadd_small coord_max_def cdiv_def)

lemma upto_0_3: "[0 .. (4::int) - 1] = [0, 1, 2, 3]"
  by (simp add: upto.simps)

text \<open>
  C3, as the code has it: \<open>compute\<close> for thickness 10 and 4 beads gives the widths
  \<open>[2, 2, 2, 2]\<close>, nothing left over, and the locations \<open>[1, 3, 6, 8]\<close>: locations
  are coordinates, and the two integer divisions drop the fractions of 1.25, 3.75, 6.25
  and 8.75.
\<close>

theorem compute_10_4:
  "compute 10 4 = \<lparr> total_thickness = 10, bead_widths = [2, 2, 2, 2],
                     toolpath_locations = [1, 3, 6, 8], left_over = 0 \<rparr>"
proof -
  have "replicate (nat 4) (cdiv 10 4) = [2, 2, 2, 2]"
    by (simp add: cdiv_def eval_nat_numeral)
  then show ?thesis
    unfolding compute_def upto_0_3 by (simp add: location_10_4)
qed

theorem compute_10_4_not_fractional:
  "map real_of_int (toolpath_locations (compute 10 4)) \<noteq> [1.25, 3.75, 6.25, 8.75]"
  unfolding compute_def upto_0_3 by (simp add: location_10_4)

subsection \<open>Tiling\<close>

text \<open>
  C4, as the code has it: for a thickness that is not negative and a positive bead count
  such that \<open>thickness * (2 * bead_count - 1)\<close>, the greatest product the loop forms, is a
  coordinate, \<open>compute\<close> returns \<open>bead_count\<close> widths, each \<open>thickness / bead_count\<close>, as
  many locations, nothing left over, and the location of index \<open>i\<close> is
  \<open>thickness * (2 i + 1) / (2 * bead_count)\<close>: dividing by \<open>bead_count\<close> and then by 2, as
  the code does, gives the same value.
\<close>

theorem compute_tiling:
  assumes "0 \<le> thickness" and "0 < bead_count"
    and "2 * bead_count - 1 \<le> coord_max"
    and "thickness * (2 * bead_count - 1) \<le> coord_max"
  shows "bead_widths (compute thickness bead_count)
           = replicate (nat bead_count) (cdiv thickness bead_count)
       \<and> length (toolpath_locations (compute thickness bead_count)) = nat bead_count
       \<and> left_over (compute thickness bead_count) = 0
       \<and> (\<forall>i < nat bead_count.
             toolpath_locations (compute thickness bead_count) ! i
               = cdiv (thickness * (2 * int i + 1)) (2 * bead_count))"
proof -
  have loc: "toolpath_locations (compute thickness bead_count) ! i
               = cdiv (thickness * (2 * int i + 1)) (2 * bead_count)"
    if i: "i < nat bead_count" for i
  proof -
    let ?k = "int i * 2 + 1"
    have k: "0 \<le> ?k" "?k \<le> 2 * bead_count - 1" using i by simp_all
    have "cmul (int i) 2 = int i * 2"
      unfolding cmul_def using k assms(3) by (intro wrap64_id) simp_all
    then have odd: "cadd (cmul (int i) 2) 1 = ?k"
      unfolding cadd_def using k assms(3) by (simp add: wrap64_id)
    have "thickness * ?k \<le> thickness * (2 * bead_count - 1)"
      using k(2) assms(1) by (rule mult_left_mono)
    with assms(4) have le: "thickness * ?k \<le> coord_max" by simp
    have nn: "0 \<le> thickness * ?k" using assms(1) k(1) by simp
    have prod: "cmul thickness ?k = thickness * ?k"
      unfolding cmul_def using nn le by (intro wrap64_id) simp_all
    have "cdiv (cdiv (thickness * ?k) bead_count) 2 = cdiv (thickness * ?k) (2 * bead_count)"
      using nn assms(2) by (rule cdiv_cdiv_2)
    with i assms(2) odd prod show ?thesis
      by (simp add: compute_def mult.commute)
  qed
  show ?thesis using assms(2) loc by (simp add: compute_def)
qed

theorem compute_tiling_witness:
  "(0::int) \<le> 7 \<and> (0::int) < 3 \<and> 2 * 3 - 1 \<le> coord_max \<and> 7 * (2 * 3 - 1) \<le> coord_max
   \<and> bead_widths (compute 7 3) = [2, 2, 2]
   \<and> left_over (compute 7 3) = 0
   \<and> toolpath_locations (compute 7 3) ! 2 = cdiv (7 * 5) 6
   \<and> toolpath_locations (compute 7 3) ! 2 = 5"
proof -
  have h1: "(0::int) \<le> 7" and h2: "(0::int) < 3" by simp_all
  have h3: "2 * 3 - 1 \<le> coord_max" and h4: "7 * (2 * 3 - 1) \<le> coord_max"
    by (simp_all add: coord_max_def)
  have r: "replicate (nat 3) (cdiv 7 3) = [2, 2, 2]"
    by (simp add: cdiv_def numeral_3_eq_3)
  have c: "cdiv (7 * 5) 6 = 5" by (simp add: cdiv_def)
  from compute_tiling [OF h1 h2 h3 h4]
  have "bead_widths (compute 7 3) = replicate (nat 3) (cdiv 7 3)"
    and "left_over (compute 7 3) = 0"
    and "toolpath_locations (compute 7 3) ! 2 = cdiv (7 * (2 * int 2 + 1)) (2 * 3)"
    by simp_all
  then show ?thesis using r c h3 h4 by simp
qed

text \<open>
  The claim C4 as it is stated, for every thickness and bead count, fails where the
  product overflows: for the thickness \<open>2\<^sup>6\<^sup>2\<close> and 2 beads the second location is
  \<open>-2\<^sup>6\<^sup>0\<close>, not \<open>3 * 2\<^sup>6\<^sup>0\<close>.
\<close>

theorem compute_overflow_counterexample:
  "(0::int) \<le> 4611686018427387904 \<and> (0::int) < 2 \<and> 4611686018427387904 \<le> coord_max
   \<and> toolpath_locations (compute 4611686018427387904 2) ! 1 = - 1152921504606846976
   \<and> toolpath_locations (compute 4611686018427387904 2) ! 1
        \<noteq> cdiv (4611686018427387904 * (2 * 1 + 1)) (2 * 2)"
proof -
  have l: "[0 .. (2::int) - 1] = [0, 1]" by (simp add: upto.simps)
  have odd: "cadd (cmul 1 2) 1 = 3" by (simp add: cmul_small cadd_small coord_max_def)
  have "cmul 4611686018427387904 3 = - 4611686018427387904"
    by (simp add: cmul_def wrap64_def)
  then have "cdiv (cdiv (cmul 4611686018427387904 (cadd (cmul 1 2) 1)) 2) 2 = - 1152921504606846976"
    by (simp add: odd cdiv_def)
  then have loc: "toolpath_locations (compute 4611686018427387904 2) ! 1 = - 1152921504606846976"
    unfolding compute_def l by simp
  have "cdiv (4611686018427387904 * (2 * 1 + 1)) (2 * 2) = 3458764513820540928"
    by (simp add: cdiv_def)
  with loc show ?thesis by (simp add: coord_max_def)
qed

subsection \<open>Round trip\<close>

text \<open>
  C5, as the code has it: for a positive optimal width and a bead count \<open>n\<close> that is not
  negative, such that \<open>n * optimal_width + optimal_width / 2\<close> is a coordinate, the optimal
  bead count of the optimal thickness of \<open>n\<close> beads is \<open>n\<close>.
\<close>

theorem optimal_bead_count_roundtrip:
  assumes "0 \<le> n" and "0 < optimal_width s"
    and "n * optimal_width s + cdiv (optimal_width s) 2 \<le> coord_max"
  shows "getOptimalBeadCount s (getOptimalThickness s n) = Some n"
proof -
  let ?w = "optimal_width s"
  have h: "cdiv ?w 2 = ?w div 2" using assms(2) by (simp add: cdiv_nonneg)
  have half: "0 \<le> ?w div 2" using assms(2) by simp
  have nw: "0 \<le> n * ?w" using assms(1,2) by simp
  have "n * ?w \<le> n * ?w + ?w div 2" using half by simp
  with assms(3) h have "n * ?w \<le> coord_max" by simp
  with nw have t: "getOptimalThickness s n = n * ?w"
    unfolding getOptimalThickness_def cmul_def by (intro wrap64_id) simp_all
  have sum: "cadd (n * ?w) (?w div 2) = n * ?w + ?w div 2"
    unfolding cadd_def using nw half assms(3) h by (intro wrap64_id) simp_all
  have "0 \<le> n * ?w + ?w div 2" using nw half by simp
  then have "cdiv (n * ?w + ?w div 2) ?w = (n * ?w + ?w div 2) div ?w"
    using assms(2) by (simp add: cdiv_nonneg)
  also have "\<dots> = n + (?w div 2) div ?w" using assms(2) by simp
  also have "(?w div 2) div ?w = 0" using assms(2) by simp
  finally show ?thesis using assms(2) by (simp add: getOptimalBeadCount_def t h sum)
qed

theorem optimal_bead_count_roundtrip_witness:
  "(0::int) \<le> 3
   \<and> 0 < optimal_width \<lparr>optimal_width = 400, wall_transition_threshold = 1 / 2\<rparr>
   \<and> 3 * optimal_width \<lparr>optimal_width = 400, wall_transition_threshold = 1 / 2\<rparr>
       + cdiv (optimal_width \<lparr>optimal_width = 400, wall_transition_threshold = 1 / 2\<rparr>) 2
         \<le> coord_max
   \<and> getOptimalThickness \<lparr>optimal_width = 400, wall_transition_threshold = 1 / 2\<rparr> 3 = 1200
   \<and> getOptimalBeadCount \<lparr>optimal_width = 400, wall_transition_threshold = 1 / 2\<rparr> 1200 = Some 3"
proof -
  let ?s = "\<lparr>optimal_width = 400, wall_transition_threshold = 1 / 2\<rparr>"
  have h1: "(0::int) \<le> 3" and h2: "0 < optimal_width ?s" by simp_all
  have h3: "3 * optimal_width ?s + cdiv (optimal_width ?s) 2 \<le> coord_max"
    by (simp add: cdiv_def coord_max_def)
  have t: "getOptimalThickness ?s 3 = 1200"
    by (simp add: getOptimalThickness_def cmul_small coord_max_def)
  from optimal_bead_count_roundtrip [OF h1 h2 h3] t
  have "getOptimalBeadCount ?s 1200 = Some 3" by simp
  with h1 h2 h3 t show ?thesis by (intro conjI)
qed

text \<open>
  The claim C5 as it is stated, for every \<open>n\<close>, fails where the sum overflows: with the
  optimal width 7 and \<open>n = (2\<^sup>6\<^sup>3 - 1) / 7\<close> the optimal thickness is the greatest
  coordinate, adding half the width wraps around, and the bead count returned is negative.
\<close>

theorem roundtrip_overflow_counterexample:
  "(0::int) \<le> 1317624576693539401
   \<and> 0 < optimal_width \<lparr>optimal_width = 7, wall_transition_threshold = 1 / 2\<rparr>
   \<and> getOptimalThickness \<lparr>optimal_width = 7, wall_transition_threshold = 1 / 2\<rparr>
         1317624576693539401 = coord_max
   \<and> getOptimalBeadCount \<lparr>optimal_width = 7, wall_transition_threshold = 1 / 2\<rparr>
         (getOptimalThickness \<lparr>optimal_width = 7, wall_transition_threshold = 1 / 2\<rparr>
            1317624576693539401)
       = Some (- 1317624576693539400)"
proof -
  let ?s = "\<lparr>optimal_width = 7, wall_transition_threshold = 1 / 2\<rparr>"
  have t: "getOptimalThickness ?s 1317624576693539401 = 9223372036854775807"
    by (simp add: getOptimalThickness_def cmul_small coord_max_def)
  have "cadd 9223372036854775807 (cdiv 7 2) = - 9223372036854775806"
    by (simp add: cadd_def cdiv_def wrap64_def)
  then have "getOptimalBeadCount ?s 9223372036854775807 = Some (- 1317624576693539400)"
    by (simp add: getOptimalBeadCount_def cdiv_def)
  with t show ?thesis by (simp add: coord_max_def)
qed

subsection \<open>Rounding to a double\<close>

text \<open>
  Rounding is monotone on the values that are not negative, and leaves every integer from
  0 to \<open>2\<^sup>5\<^sup>3\<close> as it is.
\<close>

lemma round_even_of_int: "round_even (of_int k) = k"
  by (simp add: round_even_def)

lemma round_even_range: "\<lfloor>r\<rfloor> \<le> round_even r \<and> round_even r \<le> \<lfloor>r\<rfloor> + 1"
  by (simp add: round_even_def Let_def)

lemma round_even_mono:
  assumes "r \<le> s"
  shows "round_even r \<le> round_even s"
proof (cases "\<lfloor>r\<rfloor> < \<lfloor>s\<rfloor>")
  case True
  have "round_even r \<le> \<lfloor>r\<rfloor> + 1" using round_even_range by blast
  also have "\<dots> \<le> \<lfloor>s\<rfloor>" using True by simp
  also have "\<dots> \<le> round_even s" using round_even_range by blast
  finally show ?thesis .
next
  case False
  moreover have "\<lfloor>r\<rfloor> \<le> \<lfloor>s\<rfloor>" using assms by (rule floor_mono)
  ultimately have eq: "\<lfloor>r\<rfloor> = \<lfloor>s\<rfloor>" by simp
  then have "r - of_int \<lfloor>r\<rfloor> \<le> s - of_int \<lfloor>s\<rfloor>" using assms by simp
  then show ?thesis unfolding round_even_def Let_def eq by auto
qed

lemma ulp_pos: "0 < ulp x"
  by (simp add: ulp_def)

lemma double_exponent_mono:
  assumes "0 < x" and "x \<le> y"
  shows "double_exponent x \<le> double_exponent y"
proof -
  have "log 2 x \<le> log 2 y" using assms by (intro log_mono) simp_all
  then have "\<lfloor>log 2 x\<rfloor> \<le> \<lfloor>log 2 y\<rfloor>" by (rule floor_mono)
  then show ?thesis by (simp add: double_exponent_def)
qed

lemma floor_log_bounds:
  assumes "0 < x"
  shows "2 powr of_int \<lfloor>log 2 x\<rfloor> \<le> x" and "x < 2 powr of_int (\<lfloor>log 2 x\<rfloor> + 1)"
  using floor_log_eq_powr_iff [of x 2 "\<lfloor>log 2 x\<rfloor>"] assms by simp_all

lemma below_next_power:
  assumes "0 < x"
  shows "x < 2 powr of_int (double_exponent x + 1)"
proof -
  have "x < 2 powr of_int (\<lfloor>log 2 x\<rfloor> + 1)" using assms by (rule floor_log_bounds)
  also have "\<dots> \<le> 2 powr of_int (double_exponent x + 1)"
    by (simp add: double_exponent_def)
  finally show ?thesis .
qed

lemma above_power:
  assumes "0 < x" and "- 1022 \<le> \<lfloor>log 2 x\<rfloor>"
  shows "2 powr of_int (double_exponent x) \<le> x"
proof -
  have "double_exponent x = \<lfloor>log 2 x\<rfloor>"
    using assms(2) unfolding double_exponent_def by (rule max_absorb1)
  then show ?thesis using floor_log_bounds(1) [OF assms(1)] by simp
qed

lemma ulp_times_52: "ulp x * 2 powr 52 = 2 powr of_int (double_exponent x)"
proof -
  have "ulp x * 2 powr 52 = 2 powr (of_int (double_exponent x - 52) + 52)"
    unfolding ulp_def by (simp only: powr_add)
  also have "of_int (double_exponent x - 52) + 52 = (of_int (double_exponent x) :: real)"
    by simp
  finally show ?thesis .
qed

lemma ulp_times_53: "ulp x * 2 powr 53 = 2 powr of_int (double_exponent x + 1)"
proof -
  have "ulp x * 2 powr 53 = 2 powr (of_int (double_exponent x - 52) + 53)"
    unfolding ulp_def by (simp only: powr_add)
  also have "of_int (double_exponent x - 52) + 53 = (of_int (double_exponent x + 1) :: real)"
    by simp
  finally show ?thesis .
qed

lemma round_even_power: "round_even (2 powr numeral n) = 2 ^ numeral n"
proof -
  have "(2::real) powr numeral n = of_int (2 ^ numeral n)" by simp
  then show ?thesis by (simp only: round_even_of_int)
qed

lemma round_magnitude_upper:
  assumes "0 < x"
  shows "round_magnitude x \<le> 2 powr of_int (double_exponent x + 1)"
proof -
  have "x < ulp x * 2 powr 53" using below_next_power [OF assms] by (simp only: ulp_times_53)
  then have "x / ulp x \<le> 2 powr 53"
    using ulp_pos [of x] by (simp only: pos_divide_le_eq mult.commute less_imp_le)
  then have "round_even (x / ulp x) \<le> round_even (2 powr 53)" by (rule round_even_mono)
  then have "round_even (x / ulp x) \<le> 2 ^ 53" by (simp only: round_even_power)
  then have "(of_int (round_even (x / ulp x)) :: real) \<le> of_int (2 ^ 53)"
    by (simp only: of_int_le_iff)
  also have "(of_int (2 ^ 53) :: real) = 2 powr 53" by simp
  finally have "ulp x * of_int (round_even (x / ulp x)) \<le> ulp x * 2 powr 53"
    using ulp_pos [of x] by (simp only: mult_le_cancel_left_pos)
  then show ?thesis using assms by (simp only: round_magnitude_def ulp_times_53) simp
qed

lemma round_magnitude_lower:
  assumes "0 < x" and "- 1022 \<le> \<lfloor>log 2 x\<rfloor>"
  shows "2 powr of_int (double_exponent x) \<le> round_magnitude x"
proof -
  have "ulp x * 2 powr 52 \<le> x" using above_power [OF assms] by (simp only: ulp_times_52)
  then have "2 powr 52 \<le> x / ulp x"
    using ulp_pos [of x] by (simp only: pos_le_divide_eq mult.commute)
  then have "round_even (2 powr 52) \<le> round_even (x / ulp x)" by (rule round_even_mono)
  then have "2 ^ 52 \<le> round_even (x / ulp x)" by (simp only: round_even_power)
  then have "(of_int (2 ^ 52) :: real) \<le> of_int (round_even (x / ulp x))"
    by (simp only: of_int_le_iff)
  moreover have "(of_int (2 ^ 52) :: real) = 2 powr 52" by simp
  ultimately have "ulp x * 2 powr 52 \<le> ulp x * of_int (round_even (x / ulp x))"
    using ulp_pos [of x] by (simp only: mult_le_cancel_left_pos)
  then show ?thesis using assms by (simp only: round_magnitude_def ulp_times_52) simp
qed

lemma round_magnitude_nonneg: "0 \<le> x \<Longrightarrow> 0 \<le> round_magnitude x"
proof -
  assume x: "0 \<le> x"
  have "0 \<le> x / ulp x" using x ulp_pos [of x] by simp
  then have "round_even 0 \<le> round_even (x / ulp x)" by (rule round_even_mono)
  then have "0 \<le> round_even (x / ulp x)" by (simp add: round_even_def)
  then show ?thesis using ulp_pos [of x] by (simp add: round_magnitude_def)
qed

lemma round_magnitude_mono:
  assumes "0 \<le> x" and "x \<le> y"
  shows "round_magnitude x \<le> round_magnitude y"
proof (cases "x = 0")
  case True
  then show ?thesis using assms round_magnitude_nonneg [of y] by (simp add: round_magnitude_def)
next
  case False
  with assms have x: "0 < x" and y: "0 < y" by simp_all
  have le: "double_exponent x \<le> double_exponent y" using x assms(2) by (rule double_exponent_mono)
  show ?thesis
  proof (cases "double_exponent x = double_exponent y")
    case True
    then have u: "ulp x = ulp y" by (simp add: ulp_def)
    have "x / ulp y \<le> y / ulp y" using assms(2) ulp_pos [of y] by (simp add: divide_right_mono)
    then have "round_even (x / ulp y) \<le> round_even (y / ulp y)" by (rule round_even_mono)
    then have "ulp y * of_int (round_even (x / ulp y)) \<le> ulp y * of_int (round_even (y / ulp y))"
      using ulp_pos [of y] by simp
    then show ?thesis using x y by (simp add: round_magnitude_def u)
  next
    case False
    with le have lt: "double_exponent x + 1 \<le> double_exponent y" by simp
    have "- 1022 \<le> double_exponent x" by (simp add: double_exponent_def)
    with lt have "- 1022 < double_exponent y" by simp
    then have ny: "- 1022 \<le> \<lfloor>log 2 y\<rfloor>"
      unfolding double_exponent_def max_def by (simp split: if_splits)
    have "round_magnitude x \<le> 2 powr of_int (double_exponent x + 1)"
      using x by (rule round_magnitude_upper)
    also have "\<dots> \<le> 2 powr of_int (double_exponent y)"
      using lt by simp
    also have "\<dots> \<le> round_magnitude y" using y ny by (rule round_magnitude_lower)
    finally show ?thesis .
  qed
qed

lemma round_double_mono:
  assumes "0 \<le> x" and "x \<le> y"
  shows "round_double x \<le> round_double y"
  using assms round_magnitude_mono [OF assms] by (simp add: round_double_def)

lemma round_magnitude_exact:
  assumes "x / ulp x = of_int m"
  shows "round_magnitude x = x"
proof -
  have "ulp x * of_int (round_even (x / ulp x)) = ulp x * (x / ulp x)"
    by (simp only: assms round_even_of_int)
  also have "\<dots> = x" using ulp_pos [of x] by simp
  finally show ?thesis by (simp add: round_magnitude_def)
qed

lemma round_magnitude_of_int:
  assumes "0 \<le> k" and "k \<le> 2 ^ 53"
  shows "round_magnitude (of_int k) = of_int k"
proof (cases "k = 0")
  case True
  then show ?thesis by (simp add: round_magnitude_def)
next
  case False
  let ?x = "of_int k :: real"
  let ?e = "\<lfloor>log 2 ?x\<rfloor>"
  from False assms(1) have k: "1 \<le> k" by simp
  then have x: "0 < ?x" "1 \<le> ?x" by simp_all
  have up: "?x \<le> 2 powr 53"
  proof -
    have "?x \<le> of_int (2 ^ 53)" using assms(2) by (simp only: of_int_le_iff)
    then show ?thesis by simp
  qed
  have "2 powr 0 \<le> ?x" using x(2) by simp
  also have "?x < 2 powr of_int (?e + 1)" using x(1) by (rule floor_log_bounds)
  finally have "(0::real) < of_int (?e + 1)" by (simp only: powr_less_cancel_iff one_less_numeral_iff semiring_norm)
  then have e0: "0 \<le> ?e" by linarith
  have "2 powr of_int ?e \<le> ?x" using x(1) by (rule floor_log_bounds)
  also note up
  finally have "2 powr of_int ?e \<le> (2::real) powr 53" .
  then have "of_int ?e \<le> (53::real)"
    by (simp only: powr_le_cancel_iff one_less_numeral_iff semiring_norm)
  then have e53: "?e \<le> 53" by linarith
  have de: "double_exponent ?x = ?e" using e0 by (simp add: double_exponent_def)
  have u: "ulp ?x = 2 powr of_int (?e - 52)" by (simp only: ulp_def de)
  have "\<exists>m. ?x / ulp ?x = of_int m"
  proof (cases "?e \<le> 52")
    case True
    have "?x / ulp ?x = ?x * 2 powr of_int (52 - ?e)"
      unfolding u by (simp add: powr_diff field_simps)
    also have "2 powr of_int (52 - ?e) = (2::real) ^ nat (52 - ?e)"
      using True by (subst powr_real_of_int) simp_all
    also have "?x * 2 ^ nat (52 - ?e) = of_int (k * 2 ^ nat (52 - ?e))" by simp
    finally show ?thesis by blast
  next
    case False
    with e53 have e: "?e = 53" by linarith
    have "2 powr of_int ?e \<le> ?x" using x(1) by (rule floor_log_bounds)
    then have "2 powr 53 \<le> ?x" by (simp only: e) simp
    with up have xe: "?x = 2 powr 53" by simp
    have "ulp ?x = 2" unfolding u e by simp
    then have "?x / ulp ?x = 2 powr 53 / 2" using xe by simp
    also have "\<dots> = of_int (2 ^ 52)" by simp
    finally show ?thesis by blast
  qed
  then obtain m where "?x / ulp ?x = of_int m" ..
  then show ?thesis by (rule round_magnitude_exact)
qed

lemma round_double_of_int:
  assumes "0 \<le> k" and "k \<le> 2 ^ 53"
  shows "round_double (of_int k) = of_int k"
  using assms round_magnitude_of_int [OF assms] by (simp add: round_double_def)

lemma round_double_half: "round_double (1 / 2) = 1 / 2"
proof -
  have "\<lfloor>log 2 (1 / 2 :: real)\<rfloor> = - 1"
    by (subst floor_log_eq_powr_iff) (simp_all add: powr_minus)
  then have "double_exponent (1 / 2) = - 1" by (simp add: double_exponent_def)
  then have u: "ulp (1 / 2) = 2 powr (- 53)" by (simp add: ulp_def)
  have "(1 / 2) / ulp (1 / 2) = 2 powr 52"
    unfolding u by (simp add: powr_minus field_simps)
  also have "\<dots> = of_int (2 ^ 52)" by simp
  finally have "round_magnitude (1 / 2) = 1 / 2" by (rule round_magnitude_exact)
  then show ?thesis by (simp add: round_double_def)
qed

lemma in_range_53:
  assumes "0 \<le> x" and "x \<le> 2 ^ 53"
  shows "- (2 ^ 63) \<le> x" and "x \<le> coord_max"
  using assms by (simp_all add: coord_max_def)

lemma to_coord_between:
  assumes "of_int a \<le> x" and "x \<le> of_int b" and "0 \<le> a" and "b \<le> coord_max"
  shows "\<exists>T. to_coord x = Some T \<and> a \<le> T \<and> T \<le> b"
proof -
  have x0: "0 \<le> x" using assms(1,3) by (meson of_int_0_le_iff order_trans)
  have lo: "a \<le> \<lfloor>x\<rfloor>" using assms(1) by (simp only: le_floor_iff)
  have "\<lfloor>x\<rfloor> \<le> \<lfloor>of_int b :: real\<rfloor>" using assms(2) by (rule floor_mono)
  then have hi: "\<lfloor>x\<rfloor> \<le> b" by simp
  have "coord_min \<le> 0" by (simp add: coord_min_def)
  then have "coord_min \<le> \<lfloor>x\<rfloor>" using lo assms(3) by linarith
  moreover have "\<lfloor>x\<rfloor> \<le> coord_max" using hi assms(4) by linarith
  ultimately have "to_coord x = Some \<lfloor>x\<rfloor>" using x0 by (simp add: to_coord_def)
  with lo hi show ?thesis by simp
qed

subsection \<open>Transition thickness\<close>

text \<open>
  C6, as the code has it: for \<open>n \<ge> 0\<close> and a positive optimal width with
  \<open>(n + 1) * optimal_width \<le> 2\<^sup>5\<^sup>3\<close> (so that the integers involved are doubles), and a
  threshold from 0 to 1, the transition thickness is returned and lies between the
  optimal thickness of \<open>n\<close> beads and that of \<open>n + 1\<close> beads; it is strictly above the
  former when \<open>optimal_width * wall_transition_threshold \<ge> 1\<close>, and strictly below the
  latter when \<open>optimal_width * wall_transition_threshold \<le> optimal_width - 1\<close>.
\<close>

theorem transition_band:
  assumes n: "0 \<le> n" and w: "0 < optimal_width s"
    and bound: "(n + 1) * optimal_width s \<le> 2 ^ 53"
    and t0: "0 \<le> wall_transition_threshold s" and t1: "wall_transition_threshold s \<le> 1"
  shows "\<exists>T. getTransitionThickness s n = Some T
           \<and> getOptimalThickness s n \<le> T \<and> T \<le> getOptimalThickness s (n + 1)
           \<and> (1 \<le> of_int (optimal_width s) * wall_transition_threshold s
                \<longrightarrow> getOptimalThickness s n < T)
           \<and> (of_int (optimal_width s) * wall_transition_threshold s \<le> of_int (optimal_width s) - 1
                \<longrightarrow> T < getOptimalThickness s (n + 1))"
proof -
  let ?w = "optimal_width s" and ?t = "wall_transition_threshold s"
  let ?p = "of_int ?w * ?t :: real"
  let ?b = "round_double (round_double (of_int ?w) * ?t)"
  let ?r = "round_double (round_double (of_int (cmul n ?w)) + ?b)"
  have nw0: "0 \<le> n * ?w" using n w by simp
  have w1: "1 \<le> ?w" using w by simp
  have nww: "n * ?w + ?w = (n + 1) * ?w" by (simp add: algebra_simps)
  have nw53: "n * ?w + ?w \<le> 2 ^ 53" using bound by (simp only: nww)
  have w53: "?w \<le> 2 ^ 53" using nw53 nw0 by linarith
  have nw53': "n * ?w \<le> 2 ^ 53" using nw53 w by linarith
  have small: "(2::int) ^ 53 \<le> coord_max" by (simp add: coord_max_def)
  have cm: "cmul n ?w = n * ?w"
    using in_range_53 [OF nw0 nw53'] by (rule cmul_small)
  have nww0: "0 \<le> (n + 1) * ?w" using n w by simp
  have cm': "cmul (n + 1) ?w = n * ?w + ?w"
    using in_range_53 [OF nww0 bound] cmul_small [of "n + 1" ?w] by (simp only: nww)
  have o: "getOptimalThickness s n = n * ?w" by (simp add: getOptimalThickness_def cm)
  have o': "getOptimalThickness s (n + 1) = n * ?w + ?w" by (simp add: getOptimalThickness_def cm')
  have rw: "round_double (of_int ?w) = of_int ?w" using w w53 by (intro round_double_of_int) simp_all
  have rnw: "round_double (of_int (n * ?w)) = of_int (n * ?w)"
    using nw0 nw53' by (rule round_double_of_int)
  have rnww: "round_double (of_int (n * ?w + ?w)) = of_int (n * ?w + ?w)"
    using nw0 w nw53 by (intro round_double_of_int) simp_all
  have r0: "round_double 0 = 0" by (simp add: round_double_def round_magnitude_def)
  have p0: "0 \<le> ?p" using w t0 by simp
  have pw: "?p \<le> of_int ?w" using w t1 by (simp add: mult_left_le)
  have b0: "0 \<le> ?b"
    using round_double_mono [of 0 ?p] p0 by (simp add: rw r0)
  have bw: "?b \<le> of_int ?w"
    using round_double_mono [OF p0 pw] by (simp add: rw)
  have nwr: "0 \<le> (of_int (n * ?w) :: real)" using nw0 by (simp only: of_int_0_le_iff)
  have sum0: "0 \<le> of_int (n * ?w) + ?b" using nwr b0 by (rule add_nonneg_nonneg)
  have lo: "of_int (n * ?w) \<le> ?r"
  proof -
    have "of_int (n * ?w) \<le> of_int (n * ?w) + ?b" using b0 by simp
    with nwr have "round_double (of_int (n * ?w)) \<le> round_double (of_int (n * ?w) + ?b)"
      by (rule round_double_mono)
    then show ?thesis by (simp only: rnw cm)
  qed
  have hi: "?r \<le> of_int (n * ?w + ?w)"
  proof -
    have "of_int (n * ?w) + ?b \<le> of_int (n * ?w + ?w)" using bw by simp
    with sum0 have "round_double (of_int (n * ?w) + ?b) \<le> round_double (of_int (n * ?w + ?w))"
      by (rule round_double_mono)
    then show ?thesis by (simp only: rnw rnww cm)
  qed
  have top: "n * ?w + ?w \<le> coord_max" using in_range_53(2) [OF nww0 bound] by (simp only: nww)
  from to_coord_between [OF lo hi nw0 top]
  obtain T where T: "to_coord ?r = Some T" "n * ?w \<le> T" "T \<le> n * ?w + ?w" by blast
  have strict_lo: "n * ?w < T" if p1: "1 \<le> ?p"
  proof -
    have r1: "round_double (of_int 1) = of_int 1" by (intro round_double_of_int) simp_all
    have "round_double 1 \<le> ?b"
      using round_double_mono [of 1 ?p] p1 by (simp add: rw)
    then have b1: "1 \<le> ?b" using r1 by simp
    have rn1: "round_double (of_int (n * ?w + 1)) = of_int (n * ?w + 1)"
      using nw0 nw53 w1 by (intro round_double_of_int) linarith+
    have "0 \<le> n * ?w + 1" using nw0 by simp
    then have "0 \<le> (of_int (n * ?w + 1) :: real)" by (simp only: of_int_0_le_iff)
    moreover have "of_int (n * ?w + 1) \<le> of_int (n * ?w) + ?b" using b1 by simp
    ultimately have "round_double (of_int (n * ?w + 1)) \<le> round_double (of_int (n * ?w) + ?b)"
      by (rule round_double_mono)
    then have lo1: "of_int (n * ?w + 1) \<le> ?r" by (simp only: rn1 rnw cm)
    have "0 \<le> n * ?w + 1" using nw0 by simp
    from to_coord_between [OF lo1 hi this top] T(1) show ?thesis by simp
  qed
  have strict_hi: "T < n * ?w + ?w" if p2: "?p \<le> of_int ?w - 1"
  proof -
    have rw1: "round_double (of_int (?w - 1)) = of_int (?w - 1)"
      using w1 w53 by (intro round_double_of_int) linarith+
    have "?p \<le> of_int (?w - 1)" using p2 by simp
    with p0 have "?b \<le> round_double (of_int (?w - 1))"
      using round_double_mono [of ?p "of_int (?w - 1)"] by (simp add: rw)
    then have b2: "?b \<le> of_int (?w - 1)" by (simp only: rw1)
    have rn2: "round_double (of_int (n * ?w + ?w - 1)) = of_int (n * ?w + ?w - 1)"
      using nw0 nw53 w1 by (intro round_double_of_int) linarith+
    have "of_int (n * ?w) + ?b \<le> of_int (n * ?w + ?w - 1)" using b2 by simp
    with sum0 have "round_double (of_int (n * ?w) + ?b) \<le> round_double (of_int (n * ?w + ?w - 1))"
      by (rule round_double_mono)
    then have hi2: "?r \<le> of_int (n * ?w + ?w - 1)" by (simp only: rn2 rnw cm)
    have "n * ?w + ?w - 1 \<le> coord_max" using top by simp
    from to_coord_between [OF lo hi2 nw0 this] T(1) show ?thesis by simp
  qed
  have "getTransitionThickness s n = Some T" using T(1) by (simp only: getTransitionThickness_def)
  with T(2,3) strict_lo strict_hi show ?thesis by (simp add: o o')
qed

theorem transition_band_witness:
  "(0::int) \<le> 2
   \<and> 0 < optimal_width \<lparr>optimal_width = 400, wall_transition_threshold = 1 / 2\<rparr>
   \<and> (2 + 1) * optimal_width \<lparr>optimal_width = 400, wall_transition_threshold = 1 / 2\<rparr> \<le> 2 ^ 53
   \<and> 0 \<le> wall_transition_threshold \<lparr>optimal_width = 400, wall_transition_threshold = 1 / 2\<rparr>
   \<and> wall_transition_threshold \<lparr>optimal_width = 400, wall_transition_threshold = 1 / 2\<rparr> \<le> 1
   \<and> getOptimalThickness \<lparr>optimal_width = 400, wall_transition_threshold = 1 / 2\<rparr> 2 = 800
   \<and> getOptimalThickness \<lparr>optimal_width = 400, wall_transition_threshold = 1 / 2\<rparr> (2 + 1) = 1200
   \<and> (\<exists>T. getTransitionThickness \<lparr>optimal_width = 400, wall_transition_threshold = 1 / 2\<rparr> 2 = Some T
          \<and> 800 < T \<and> T < 1200)"
proof -
  let ?s = "\<lparr>optimal_width = 400, wall_transition_threshold = 1 / 2\<rparr>"
  have h1: "(0::int) \<le> 2" and h2: "0 < optimal_width ?s" by simp_all
  have h3: "(2 + 1) * optimal_width ?s \<le> 2 ^ 53" by simp
  have h4: "0 \<le> wall_transition_threshold ?s" and h5: "wall_transition_threshold ?s \<le> 1"
    by simp_all
  have o: "getOptimalThickness ?s 2 = 800"
    by (simp add: getOptimalThickness_def cmul_small coord_max_def)
  have o': "getOptimalThickness ?s (2 + 1) = 1200"
    by (simp add: getOptimalThickness_def cmul_small coord_max_def)
  have p1: "1 \<le> of_int (optimal_width ?s) * wall_transition_threshold ?s" by simp
  have p2: "of_int (optimal_width ?s) * wall_transition_threshold ?s \<le> of_int (optimal_width ?s) - 1"
    by simp
  from transition_band [OF h1 h2 h3 h4 h5] p1 p2
  have "\<exists>T. getTransitionThickness ?s 2 = Some T
          \<and> getOptimalThickness ?s 2 < T \<and> T < getOptimalThickness ?s (2 + 1)"
    by blast
  then have "\<exists>T. getTransitionThickness ?s 2 = Some T \<and> 800 < T \<and> T < 1200"
    by (simp only: o o')
  with h1 h2 h3 h4 h5 o o' show ?thesis by (intro conjI)
qed

text \<open>
  The claim C6 as it is stated fails, because the conversion to a coordinate drops the
  fraction: with the optimal width 1 and the threshold 1/2 the transition thickness of 0
  beads is 0, the optimal thickness of 0 beads.
\<close>

theorem transition_not_above_counterexample:
  "0 < wall_transition_threshold \<lparr>optimal_width = 1, wall_transition_threshold = 1 / 2\<rparr>
   \<and> getOptimalThickness \<lparr>optimal_width = 1, wall_transition_threshold = 1 / 2\<rparr> 0 = 0
   \<and> getTransitionThickness \<lparr>optimal_width = 1, wall_transition_threshold = 1 / 2\<rparr> 0 = Some 0"
proof -
  have r0: "round_double 0 = 0" by (simp add: round_double_def round_magnitude_def)
  have "round_double (of_int 1) = of_int 1" by (intro round_double_of_int) simp_all
  then have r1: "round_double 1 = 1" by simp
  have c: "cmul 0 1 = 0" by (simp add: cmul_small coord_max_def)
  have "to_coord (1 / 2) = Some 0" by (simp add: to_coord_def coord_min_def coord_max_def)
  then have "getTransitionThickness \<lparr>optimal_width = 1, wall_transition_threshold = 1 / 2\<rparr> 0 = Some 0"
    by (simp add: getTransitionThickness_def c r0 r1 round_double_half)
  then show ?thesis by (simp add: getOptimalThickness_def c)
qed

text \<open>
  A threshold below 1 is not enough for the upper bound either, because the sum is
  rounded: with the optimal width 400 and the threshold \<open>1 - 2\<^sup>-\<^sup>5\<^sup>3\<close> the transition
  thickness of 1000 beads is 400400, the optimal thickness of 1001 beads.
\<close>

lemma round_even_down:
  assumes "of_int f \<le> r" and "r < of_int f + 1 / 2"
  shows "round_even r = f"
proof -
  have "\<lfloor>r\<rfloor> = f" using assms by (intro floor_unique) simp_all
  then show ?thesis using assms(2) by (simp add: round_even_def)
qed

lemma round_even_up:
  assumes "of_int f + 1 / 2 < r" and "r < of_int f + 1"
  shows "round_even r = f + 1"
proof -
  have "\<lfloor>r\<rfloor> = f" using assms by (intro floor_unique) simp_all
  then show ?thesis using assms(1) by (simp add: round_even_def)
qed

lemma round_double_at:
  assumes "2 powr of_int e \<le> x" and "x < 2 powr of_int (e + 1)" and "- 1022 \<le> e"
  shows "round_double x = 2 powr of_int (e - 52) * of_int (round_even (x / 2 powr of_int (e - 52)))"
proof -
  have "0 < 2 powr real_of_int e" by simp
  with assms(1) have x: "0 < x" by linarith
  have "\<lfloor>log 2 x\<rfloor> = e" using x assms(1,2) by (simp add: floor_log_eq_powr_iff)
  then have "double_exponent x = e" using assms(3) by (simp add: double_exponent_def)
  then have "ulp x = 2 powr of_int (e - 52)" by (simp only: ulp_def)
  then show ?thesis using x by (simp add: round_double_def round_magnitude_def)
qed

lemma product_below_width:
  "round_double (400 * (1 - 1 / 2 ^ 53)) = 400 - 1 / 2 ^ 44"
proof -
  let ?x = "400 * (1 - 1 / 2 ^ 53) :: real"
  have u: "2 powr of_int (8 - 52) = (1 / 2 ^ 44 :: real)"
    by (simp add: powr_minus_divide)
  have "round_double ?x = 2 powr of_int (8 - 52) * of_int (round_even (?x / 2 powr of_int (8 - 52)))"
    by (rule round_double_at) simp_all
  moreover have "round_even (?x / 2 powr of_int (8 - 52)) = 7036874417766399"
    unfolding u by (rule round_even_down) simp_all
  ultimately show ?thesis unfolding u by simp
qed

lemma sum_reaches_next:
  "round_double (400000 + (400 - 1 / 2 ^ 44)) = 400400"
proof -
  let ?x = "400000 + (400 - 1 / 2 ^ 44) :: real"
  have u: "2 powr of_int (18 - 52) = (1 / 2 ^ 34 :: real)"
    by (simp add: powr_minus_divide)
  have "round_double ?x = 2 powr of_int (18 - 52) * of_int (round_even (?x / 2 powr of_int (18 - 52)))"
    by (rule round_double_at) simp_all
  moreover have "round_even (?x / 2 powr of_int (18 - 52)) = 6878819621273599 + 1"
    unfolding u by (rule round_even_up) simp_all
  ultimately show ?thesis unfolding u by simp
qed

lemma transition_reaches_next_optimal:
  "wall_transition_threshold \<lparr>optimal_width = 400, wall_transition_threshold = 1 - 1 / 2 ^ 53\<rparr> < 1
   \<and> getTransitionThickness \<lparr>optimal_width = 400, wall_transition_threshold = 1 - 1 / 2 ^ 53\<rparr> 1000
       = Some 400400
   \<and> getOptimalThickness \<lparr>optimal_width = 400, wall_transition_threshold = 1 - 1 / 2 ^ 53\<rparr> (1000 + 1)
       = 400400"
proof -
  have c: "cmul 1000 400 = 400000" "cmul 1001 400 = 400400"
    by (simp_all add: cmul_small coord_max_def)
  have "round_double (of_int 400000) = of_int 400000" by (intro round_double_of_int) simp_all
  then have r1: "round_double 400000 = 400000" by simp
  have "round_double (of_int 400) = of_int 400" by (intro round_double_of_int) simp_all
  then have r2: "round_double 400 = 400" by simp
  have "to_coord 400400 = Some 400400" by (simp add: to_coord_def coord_min_def coord_max_def)
  then have "getTransitionThickness
               \<lparr>optimal_width = 400, wall_transition_threshold = 1 - 1 / 2 ^ 53\<rparr> 1000
             = Some 400400"
    by (simp only: getTransitionThickness_def c r1 r2 product_below_width sum_reaches_next
          DistributedBeadingStrategy.simps of_int_numeral)
  then show ?thesis by (simp add: getOptimalThickness_def c)
qed

section \<open>Properties of the simplifier\<close>

subsection \<open>The neighbour searches return\<close>

lemma previous_loop_down:
  assumes "i < length d" and "\<exists>j\<le>i. \<not> d ! j"
  shows "\<exists>k\<le>i. previousNotDeleted_loop i d = Some k \<and> \<not> d ! k"
  using assms
proof (induction i)
  case 0
  then show ?case by (simp add: previousNotDeleted_loop.simps)
next
  case (Suc i)
  show ?case
  proof (cases "d ! Suc i")
    case False
    then show ?thesis by (auto simp: previousNotDeleted_loop.simps)
  next
    case True
    have step: "(Suc i + length d - 1) mod length d = i" using Suc.prems(1) by simp
    from True Suc.prems(2) have "\<exists>j\<le>i. \<not> d ! j"
      by (metis le_Suc_eq)
    with Suc.IH Suc.prems(1) obtain k where "k \<le> i" "previousNotDeleted_loop i d = Some k" "\<not> d ! k"
      by auto
    moreover have "previousNotDeleted_loop (Suc i) d = previousNotDeleted_loop i d"
      using True step by (subst previousNotDeleted_loop.simps) simp
    ultimately show ?thesis by auto
  qed
qed

lemma previous_loop_wrap:
  assumes "i < length d" and "\<forall>j\<le>i. d ! j"
  shows "previousNotDeleted_loop i d = previousNotDeleted_loop (length d - 1) d"
  using assms
proof (induction i)
  case 0
  then have "(0 + length d - 1) mod length d = length d - 1" by simp
  with 0 show ?case by (subst previousNotDeleted_loop.simps) simp
next
  case (Suc i)
  have step: "(Suc i + length d - 1) mod length d = i" using Suc.prems(1) by simp
  have "previousNotDeleted_loop (Suc i) d = previousNotDeleted_loop i d"
    using Suc.prems(2) step by (subst previousNotDeleted_loop.simps) simp
  with Suc show ?case by simp
qed

lemma previous_loop_returns:
  assumes "i < length d" and "\<exists>j<length d. \<not> d ! j"
  shows "\<exists>k<length d. previousNotDeleted_loop i d = Some k \<and> \<not> d ! k"
proof (cases "\<exists>j\<le>i. \<not> d ! j")
  case True
  with previous_loop_down [OF assms(1)] assms(1) show ?thesis
    by (meson le_less_trans)
next
  case False
  then have "previousNotDeleted_loop i d = previousNotDeleted_loop (length d - 1) d"
    using assms(1) by (intro previous_loop_wrap) auto
  moreover have "\<exists>k\<le>length d - 1. previousNotDeleted_loop (length d - 1) d = Some k \<and> \<not> d ! k"
  proof (rule previous_loop_down)
    show "length d - 1 < length d" using assms(1) by simp
    from assms(2) obtain j where "j < length d" "\<not> d ! j" by auto
    then show "\<exists>j\<le>length d - 1. \<not> d ! j" by (intro exI [of _ j]) simp
  qed
  ultimately show ?thesis using assms(1) by (auto simp: less_eq_Suc_le)
qed

lemma next_loop_up:
  assumes "i < length d" and "\<exists>j\<ge>i. j < length d \<and> \<not> d ! j"
  shows "\<exists>k\<ge>i. k < length d \<and> nextNotDeleted_loop i d = Some k \<and> \<not> d ! k"
  using assms
proof (induction "length d - i" arbitrary: i)
  case 0
  then show ?case by simp
next
  case (Suc m)
  show ?case
  proof (cases "d ! i")
    case False
    with Suc.prems(1) show ?thesis by (auto simp: nextNotDeleted_loop.simps)
  next
    case True
    from Suc.prems(2) obtain j where j: "i \<le> j" "j < length d" "\<not> d ! j" by auto
    with True have "i \<noteq> j" by auto
    with j have ij: "Suc i \<le> j" by simp
    then have lt: "Suc i < length d" using j by simp
    then have step: "(i + 1) mod length d = Suc i" by simp
    have "m = length d - Suc i" using Suc.hyps(2) by simp
    from Suc.hyps(1) [OF this lt] ij j
    obtain k where "Suc i \<le> k" "k < length d" "nextNotDeleted_loop (Suc i) d = Some k" "\<not> d ! k"
      by auto
    moreover have "nextNotDeleted_loop i d = nextNotDeleted_loop (Suc i) d"
      using True step by (subst nextNotDeleted_loop.simps) simp
    ultimately show ?thesis by (intro exI [of _ k]) simp
  qed
qed

lemma next_loop_wrap:
  assumes "i < length d" and "\<forall>j\<ge>i. j < length d \<longrightarrow> d ! j"
  shows "nextNotDeleted_loop i d = nextNotDeleted_loop 0 d"
  using assms
proof (induction "length d - i" arbitrary: i)
  case 0
  then show ?case by simp
next
  case (Suc m)
  show ?case
  proof (cases "Suc i < length d")
    case True
    then have step: "(i + 1) mod length d = Suc i" by simp
    have "nextNotDeleted_loop i d = nextNotDeleted_loop (Suc i) d"
      using Suc.prems step by (subst nextNotDeleted_loop.simps) simp
    moreover have "nextNotDeleted_loop (Suc i) d = nextNotDeleted_loop 0 d"
    proof (rule Suc.hyps(1))
      show "m = length d - Suc i" using Suc.hyps(2) by simp
      show "Suc i < length d" by (rule True)
      show "\<forall>j\<ge>Suc i. j < length d \<longrightarrow> d ! j" using Suc.prems(2) by simp
    qed
    ultimately show ?thesis by simp
  next
    case False
    with Suc.prems(1) have "Suc i = length d" by simp
    then have step: "(i + 1) mod length d = 0" by simp
    show ?thesis using Suc.prems step by (subst nextNotDeleted_loop.simps) simp
  qed
qed

lemma next_loop_returns:
  assumes "i < length d" and "\<exists>j<length d. \<not> d ! j"
  shows "\<exists>k<length d. nextNotDeleted_loop i d = Some k \<and> \<not> d ! k"
proof (cases "\<exists>j\<ge>i. j < length d \<and> \<not> d ! j")
  case True
  with next_loop_up [OF assms(1)] show ?thesis by blast
next
  case False
  then have "nextNotDeleted_loop i d = nextNotDeleted_loop 0 d"
    using assms(1) by (intro next_loop_wrap) auto
  moreover have "\<exists>k\<ge>0. k < length d \<and> nextNotDeleted_loop 0 d = Some k \<and> \<not> d ! k"
  proof (rule next_loop_up)
    show "0 < length d" using assms(1) by (cases d) simp_all
    show "\<exists>j\<ge>0. j < length d \<and> \<not> d ! j" using assms(2) by simp
  qed
  ultimately show ?thesis by auto
qed

lemma previousNotDeleted_returns:
  assumes "\<exists>j<length d. \<not> d ! j"
  shows "\<exists>k<length d. previousNotDeleted i d = Some k \<and> \<not> d ! k"
proof -
  from assms have pos: "0 < length d" by auto
  then have "(i + length d - 1) mod length d < length d" by simp
  from previous_loop_returns [OF this assms] pos show ?thesis
    by (simp add: previousNotDeleted_def Let_def)
qed

lemma nextNotDeleted_returns:
  assumes "\<exists>j<length d. \<not> d ! j"
  shows "\<exists>k<length d. nextNotDeleted i d = Some k \<and> \<not> d ! k"
proof -
  from assms have pos: "0 < length d" by auto
  then have "(i + 1) mod length d < length d" by simp
  from next_loop_returns [OF this assms] pos show ?thesis
    by (simp add: nextNotDeleted_def Let_def)
qed

subsection \<open>What one call of remove changes\<close>

lemma remove_intersect_cases:
  "remove_intersect s p d v m bf bt af ato = (p, d)
   \<or> (\<exists>x. lineLineIntersection bf bt af ato = Some x
          \<and> getDist2FromLine x bt af \<le> max_deviation s * max_deviation s
          \<and> remove_intersect s p d v m bf bt af ato = (p[m := x], d[v := True]))"
  by (auto simp: remove_intersect_def Let_def split: option.splits)

lemma remove_marks:
  assumes "remove s polygon to_delete vertex deviation2 is_closed = Some (polygon', to_delete')"
  shows "to_delete' = to_delete \<or> to_delete' = to_delete[vertex := True]"
proof -
  have ri: "snd (remove_intersect s p d v m bf bt af ato) = d
            \<or> snd (remove_intersect s p d v m bf bt af ato) = d[v := True]"
    for p d v m bf bt af ato
    using remove_intersect_cases [of s p d v m bf bt af ato] by auto
  show ?thesis
    using assms
    by (auto simp: remove_def Let_def split: if_splits option.splits)
       (metis ri snd_conv)+
qed

text \<open>
  C10: a call of \<open>remove\<close> on a vertex of a polygon in which some vertex is not deleted
  returns, sets at most the flag of that vertex, clears none, and changes at most one
  position. Branch by branch, with \<open>b\<close> and \<open>a\<close> the neighbours before and after the
  vertex: when the deviation is at most \<open>min_resolution\<close> squared, or both adjacent edges
  are at most \<open>max_resolution\<close> long, the vertex is deleted and no position changes; when
  the shorter adjacent edge is the first or last edge of an open polyline, nothing
  changes; otherwise the two edges around the shorter edge are intersected, and nothing
  changes when they are parallel or the intersection deviates by more than
  \<open>max_deviation\<close>, else the vertex is deleted and exactly the other end of the shorter
  edge (\<open>b\<close> when the edge before the vertex is the shorter one, else \<open>a\<close>) is moved to
  the intersection.
\<close>

theorem remove_frame:
  assumes vertex: "vertex < length polygon"
    and len: "length to_delete = length polygon"
    and alive: "\<exists>j<length to_delete. \<not> to_delete ! j"
  shows "\<exists>polygon' to_delete' b a bb aa.
           remove s polygon to_delete vertex deviation2 is_closed = Some (polygon', to_delete')
         \<and> previousNotDeleted vertex to_delete = Some b
         \<and> nextNotDeleted vertex to_delete = Some a
         \<and> previousNotDeleted b to_delete = Some bb
         \<and> nextNotDeleted a to_delete = Some aa
         \<and> (to_delete' = to_delete \<or> to_delete' = to_delete[vertex := True])
         \<and> (polygon' = polygon \<or> (\<exists>moved x. polygon' = polygon[moved := x]))
         \<and> (let length2_before = vSize2 (psub (polygon ! vertex) (polygon ! b));
                 length2_after = vSize2 (psub (polygon ! vertex) (polygon ! a));
                 before_shorter = (length2_before \<le> length2_after)
             in if deviation2 \<le> min_resolution s * min_resolution s
                   \<or> (length2_before \<le> max_resolution s * max_resolution s
                       \<and> length2_after \<le> max_resolution s * max_resolution s)
                then polygon' = polygon \<and> to_delete' = to_delete[vertex := True]
                else if \<not> is_closed
                        \<and> (if before_shorter then b = 0 else a = length polygon - 1)
                then polygon' = polygon \<and> to_delete' = to_delete
                else
                  (case (if before_shorter
                         then lineLineIntersection (polygon ! bb) (polygon ! b)
                                (polygon ! vertex) (polygon ! a)
                         else lineLineIntersection (polygon ! b) (polygon ! vertex)
                                (polygon ! a) (polygon ! aa)) of
                     None \<Rightarrow> polygon' = polygon \<and> to_delete' = to_delete
                   | Some x \<Rightarrow>
                       if getDist2FromLine x
                            (if before_shorter then polygon ! b else polygon ! vertex)
                            (if before_shorter then polygon ! vertex else polygon ! a)
                          \<le> max_deviation s * max_deviation s
                       then polygon' = polygon[(if before_shorter then b else a) := x]
                            \<and> to_delete' = to_delete[vertex := True]
                       else polygon' = polygon \<and> to_delete' = to_delete))"
proof -
  obtain b where b: "previousNotDeleted vertex to_delete = Some b"
    using previousNotDeleted_returns [OF alive] by blast
  obtain a where a: "nextNotDeleted vertex to_delete = Some a"
    using nextNotDeleted_returns [OF alive] by blast
  obtain bb where bb: "previousNotDeleted b to_delete = Some bb"
    using previousNotDeleted_returns [OF alive] by blast
  obtain aa where aa: "nextNotDeleted a to_delete = Some aa"
    using nextNotDeleted_returns [OF alive] by blast
  let ?lb = "vSize2 (psub (polygon ! vertex) (polygon ! b))"
  let ?la = "vSize2 (psub (polygon ! vertex) (polygon ! a))"
  let ?r2 = "max_resolution s * max_resolution s"
  let ?m2 = "min_resolution s * min_resolution s"
  let ?d2 = "max_deviation s * max_deviation s"
  consider (noise) "deviation2 \<le> ?m2"
    | (short) "\<not> deviation2 \<le> ?m2" "?lb \<le> ?r2 \<and> ?la \<le> ?r2"
    | (abort_before) "\<not> deviation2 \<le> ?m2" "\<not> (?lb \<le> ?r2 \<and> ?la \<le> ?r2)" "?lb \<le> ?la"
        "\<not> is_closed \<and> b = 0"
    | (abort_after) "\<not> deviation2 \<le> ?m2" "\<not> (?lb \<le> ?r2 \<and> ?la \<le> ?r2)" "\<not> ?lb \<le> ?la"
        "\<not> is_closed \<and> a = length polygon - 1"
    | (before) "\<not> deviation2 \<le> ?m2" "\<not> (?lb \<le> ?r2 \<and> ?la \<le> ?r2)" "?lb \<le> ?la"
        "\<not> (\<not> is_closed \<and> b = 0)"
    | (after) "\<not> deviation2 \<le> ?m2" "\<not> (?lb \<le> ?r2 \<and> ?la \<le> ?r2)" "\<not> ?lb \<le> ?la"
        "\<not> (\<not> is_closed \<and> a = length polygon - 1)"
    by blast
  then show ?thesis
  proof cases
    case noise
    then have "remove s polygon to_delete vertex deviation2 is_closed
                 = Some (polygon, to_delete[vertex := True])"
      by (simp add: remove_def)
    with noise b a bb aa show ?thesis by (simp add: Let_def)
  next
    case short
    then have "remove s polygon to_delete vertex deviation2 is_closed
                 = Some (polygon, to_delete[vertex := True])"
      using b a by (simp add: remove_def Let_def)
    with short b a bb aa show ?thesis by (simp add: Let_def)
  next
    case abort_before
    then have "remove s polygon to_delete vertex deviation2 is_closed = Some (polygon, to_delete)"
      using b a by (auto simp: remove_def Let_def)
    with abort_before b a bb aa show ?thesis by (auto simp: Let_def)
  next
    case abort_after
    then have "remove s polygon to_delete vertex deviation2 is_closed = Some (polygon, to_delete)"
      using b a by (auto simp: remove_def Let_def)
    with abort_after b a bb aa show ?thesis by (auto simp: Let_def)
  next
    case before
    then have eq: "remove s polygon to_delete vertex deviation2 is_closed
                  = Some (remove_intersect s polygon to_delete vertex b
                            (polygon ! bb) (polygon ! b) (polygon ! vertex) (polygon ! a))"
      using b a bb by (auto simp: remove_def Let_def)
    show ?thesis
    proof (cases "lineLineIntersection (polygon ! bb) (polygon ! b) (polygon ! vertex) (polygon ! a)")
      case None
      then have "remove s polygon to_delete vertex deviation2 is_closed = Some (polygon, to_delete)"
        using eq by (simp add: remove_intersect_def)
      with before b a bb aa None show ?thesis by (auto simp: Let_def)
    next
      case (Some x)
      show ?thesis
      proof (cases "getDist2FromLine x (polygon ! b) (polygon ! vertex) \<le> ?d2")
        case True
        then have "remove s polygon to_delete vertex deviation2 is_closed
                     = Some (polygon[b := x], to_delete[vertex := True])"
          using eq Some by (simp add: remove_intersect_def)
        with before b a bb aa Some True show ?thesis by (auto simp: Let_def)
      next
        case False
        then have "remove s polygon to_delete vertex deviation2 is_closed = Some (polygon, to_delete)"
          using eq Some by (simp add: remove_intersect_def)
        with before b a bb aa Some False show ?thesis by (auto simp: Let_def)
      qed
    qed
  next
    case after
    then have eq: "remove s polygon to_delete vertex deviation2 is_closed
                  = Some (remove_intersect s polygon to_delete vertex a
                            (polygon ! b) (polygon ! vertex) (polygon ! a) (polygon ! aa))"
      using b a aa by (auto simp: remove_def Let_def)
    show ?thesis
    proof (cases "lineLineIntersection (polygon ! b) (polygon ! vertex) (polygon ! a) (polygon ! aa)")
      case None
      then have "remove s polygon to_delete vertex deviation2 is_closed = Some (polygon, to_delete)"
        using eq by (simp add: remove_intersect_def)
      with after b a bb aa None show ?thesis by (auto simp: Let_def)
    next
      case (Some x)
      show ?thesis
      proof (cases "getDist2FromLine x (polygon ! vertex) (polygon ! a) \<le> ?d2")
        case True
        then have "remove s polygon to_delete vertex deviation2 is_closed
                     = Some (polygon[a := x], to_delete[vertex := True])"
          using eq Some by (simp add: remove_intersect_def)
        with after b a bb aa Some True show ?thesis by (auto simp: Let_def)
      next
        case False
        then have "remove s polygon to_delete vertex deviation2 is_closed = Some (polygon, to_delete)"
          using eq Some by (simp add: remove_intersect_def)
        with after b a bb aa Some False show ?thesis by (auto simp: Let_def)
      qed
    qed
  qed
qed

theorem remove_frame_witness:
  "(1::nat) < length [Point 0 0, Point 100 0, Point 110 10, Point 110 100, Point 0 100]
   \<and> length [False, False, False, False, False]
       = length [Point 0 0, Point 100 0, Point 110 10, Point 110 100, Point 0 100]
   \<and> (\<exists>j<length [False, False, False, False, False]. \<not> [False, False, False, False, False] ! j)
   \<and> (\<exists>polygon' to_delete'.
         remove \<lparr>max_resolution = 20, max_deviation = 10, max_area_deviation = 0, min_resolution = 5\<rparr>
           [Point 0 0, Point 100 0, Point 110 10, Point 110 100, Point 0 100]
           [False, False, False, False, False] 1 81 True = Some (polygon', to_delete')
         \<and> (to_delete' = [False, False, False, False, False]
              \<or> to_delete' = [False, False, False, False, False][1 := True]))
   \<and> remove \<lparr>max_resolution = 20, max_deviation = 10, max_area_deviation = 0, min_resolution = 5\<rparr>
         [Point 0 0, Point 100 0, Point 110 10, Point 110 100, Point 0 100]
         [False, False, False, False, False] 1 81 True
       = Some ([Point 0 0, Point 100 0, Point 110 0, Point 110 100, Point 0 100],
               [False, True, False, False, False])"
proof -
  let ?p = "[Point 0 0, Point 100 0, Point 110 10, Point 110 100, Point 0 100]"
  let ?d = "[False, False, False, False, False]"
  let ?s = "\<lparr>max_resolution = 20, max_deviation = 10, max_area_deviation = 0, min_resolution = 5\<rparr>"
  have h1: "(1::nat) < length ?p" by simp
  have h2: "length ?d = length ?p" by simp
  have h3: "\<exists>j<length ?d. \<not> ?d ! j" by (intro exI [of _ 0]) simp
  have ev: "remove ?s ?p ?d 1 81 True
              = Some ([Point 0 0, Point 100 0, Point 110 0, Point 110 100, Point 0 100],
                      [False, True, False, False, False])"
    by code_simp
  from remove_frame [OF h1 h2 h3, of ?s 81 True]
  have "\<exists>polygon' to_delete'.
          remove ?s ?p ?d 1 81 True = Some (polygon', to_delete')
          \<and> (to_delete' = ?d \<or> to_delete' = ?d[1 := True])"
    by blast
  with h1 h2 h3 ev show ?thesis by (intro conjI)
qed

subsection \<open>The loop returns and keeps three vertices\<close>

text \<open>
  Every turn of the loop that shortens the queue deletes at most one vertex, and the loop
  stops at three entries: a queue that is no longer than the number of vertices that are
  not deleted stays so. So the neighbour searches always find a vertex, the loop returns,
  and at least three vertices are left.
\<close>

lemma alive_ex: "0 < length (filter Not d) \<Longrightarrow> \<exists>j<length d. \<not> d ! j"
proof -
  assume "0 < length (filter Not d)"
  then obtain x where "x \<in> set (filter Not d)" by (cases "filter Not d") auto
  then have "False \<in> set d" by auto
  then show ?thesis by (auto simp: in_set_conv_nth)
qed

lemma alive_update: "length (filter Not d) - 1 \<le> length (filter Not (d[v := True]))"
proof (induction d arbitrary: v)
  case Nil
  then show ?case by simp
next
  case (Cons x d)
  show ?case
  proof (cases v)
    case 0
    then show ?thesis by simp
  next
    case (Suc w)
    with Cons [of w] show ?thesis by auto
  qed
qed

lemma length_filtered: 
  assumes "length d = length r"
  shows "length (filtered r d) = length (filter Not d)"
proof -
  have "filter Not d = filter Not (map (\<lambda>i. d ! i) [0 ..< length d])"
    by (simp add: map_nth)
  also have "\<dots> = map (\<lambda>i. d ! i) (filter (\<lambda>i. \<not> d ! i) [0 ..< length d])"
    by (simp add: filter_map comp_def)
  finally have "length (filter Not d) = length (filter (\<lambda>i. \<not> d ! i) [0 ..< length d])"
    by simp
  with assms show ?thesis by (simp add: filtered_def)
qed

lemma importance_returns:
  assumes "\<exists>j<length d. \<not> d ! j"
  shows "\<exists>imp. importance s r d v c = Some imp"
proof -
  obtain b where "previousNotDeleted v d = Some b"
    using previousNotDeleted_returns [OF assms] by blast
  moreover obtain a where "nextNotDeleted v d = Some a"
    using nextNotDeleted_returns [OF assms] by blast
  ultimately show ?thesis by (simp add: importance_def Let_def)
qed

lemma remove_returns:
  assumes "\<exists>j<length d. \<not> d ! j"
  shows "\<exists>r' d'. remove s r d v dev c = Some (r', d')"
proof -
  obtain b where "previousNotDeleted v d = Some b"
    using previousNotDeleted_returns [OF assms] by blast
  moreover obtain a where "nextNotDeleted v d = Some a"
    using nextNotDeleted_returns [OF assms] by blast
  moreover obtain bb where "previousNotDeleted b d = Some bb"
    using previousNotDeleted_returns [OF assms] by blast
  moreover obtain aa where "nextNotDeleted a d = Some aa"
    using nextNotDeleted_returns [OF assms] by blast
  ultimately show ?thesis by (simp add: remove_def Let_def)
qed

lemma remove_shape:
  assumes rem: "remove s r d v dev c = Some (r', d')"
  shows "(r' = r \<and> (d' = d \<or> d' = d[v := True]))
       \<or> (\<exists>b a m x. previousNotDeleted v d = Some b \<and> nextNotDeleted v d = Some a
             \<and> ((m = b \<and> (c \<or> b \<noteq> 0)) \<or> (m = a \<and> (c \<or> a \<noteq> length r - 1)))
             \<and> r' = r[m := x] \<and> d' = d[v := True])"
proof (cases "dev \<le> min_resolution s * min_resolution s")
  case True
  with rem show ?thesis by (simp add: remove_def)
next
  case False
  obtain b where b: "previousNotDeleted v d = Some b"
    using rem False by (auto simp: remove_def split: option.splits)
  obtain a where a: "nextNotDeleted v d = Some a"
    using rem False b by (auto simp: remove_def split: option.splits)
  let ?lb = "vSize2 (psub (r ! v) (r ! b))"
  let ?la = "vSize2 (psub (r ! v) (r ! a))"
  let ?r2 = "max_resolution s * max_resolution s"
  consider (short) "?lb \<le> ?r2 \<and> ?la \<le> ?r2"
    | (before) "\<not> (?lb \<le> ?r2 \<and> ?la \<le> ?r2)" "?lb \<le> ?la" "\<not> c \<and> b = 0"
    | (before') "\<not> (?lb \<le> ?r2 \<and> ?la \<le> ?r2)" "?lb \<le> ?la" "c \<or> b \<noteq> 0"
    | (after) "\<not> (?lb \<le> ?r2 \<and> ?la \<le> ?r2)" "\<not> ?lb \<le> ?la" "\<not> c \<and> a = length r - 1"
    | (after') "\<not> (?lb \<le> ?r2 \<and> ?la \<le> ?r2)" "\<not> ?lb \<le> ?la" "c \<or> a \<noteq> length r - 1"
    by blast
  then show ?thesis
  proof cases
    case short
    with rem False b a show ?thesis by (simp add: remove_def Let_def)
  next
    case before
    with rem False b a show ?thesis by (auto simp: remove_def Let_def)
  next
    case before'
    then obtain bb where bb: "previousNotDeleted b d = Some bb"
      using rem False b a by (auto simp: remove_def Let_def split: option.splits)
    have eq: "remove_intersect s r d v b (r ! bb) (r ! b) (r ! v) (r ! a) = (r', d')"
      using rem False b a bb before' by (auto simp: remove_def Let_def)
    from remove_intersect_cases [of s r d v b "r ! bb" "r ! b" "r ! v" "r ! a"] eq b a before'(3)
    show ?thesis by auto
  next
    case after
    with rem False b a show ?thesis by (auto simp: remove_def Let_def)
  next
    case after'
    then obtain aa where aa: "nextNotDeleted a d = Some aa"
      using rem False b a by (auto simp: remove_def Let_def split: option.splits)
    have eq: "remove_intersect s r d v a (r ! b) (r ! v) (r ! a) (r ! aa) = (r', d')"
      using rem False b a aa after' by (auto simp: remove_def Let_def)
    from remove_intersect_cases [of s r d v a "r ! b" "r ! v" "r ! a" "r ! aa"] eq b a after'(3)
    show ?thesis by auto
  qed
qed

lemma remove_length:
  assumes "remove s r d v dev c = Some (r', d')"
  shows "length r' = length r \<and> length d' = length d"
  using remove_shape [OF assms] by auto

lemma loop_body_floor:
  assumes len: "length d = length r" and q: "3 < length q" "length q \<le> length (filter Not d)"
  shows "\<exists>r' d' q'. loop_body s c r d q = Some (r', d', q')
           \<and> length r' = length r \<and> length d' = length r
           \<and> 3 \<le> length q' \<and> length q' \<le> length (filter Not d')"
proof -
  let ?t = "top_entry q"
  from q have ne: "q \<noteq> []" by auto
  from q have "0 < length (filter Not d)" by linarith
  then have alive: "\<exists>j<length d. \<not> d ! j" by (rule alive_ex)
  have "length (pop q) = length q - 1" using ne by (rule length_pop)
  with q have lp: "Suc (length (pop q)) = length q" "3 \<le> length (pop q)" by linarith+
  obtain imp where imp: "importance s r d (fst ?t) c = Some imp"
    using importance_returns [OF alive] by blast
  consider (stale) "imp \<noteq> snd ?t"
    | (call) "imp = snd ?t" "imp \<le> max_deviation s * max_deviation s"
    | (keep) "imp = snd ?t" "\<not> imp \<le> max_deviation s * max_deviation s"
    by blast
  then show ?thesis
  proof cases
    case stale
    with imp have "loop_body s c r d q = Some (r, d, emplace (fst ?t) imp (pop q))"
      by (simp add: loop_body_def Let_def)
    moreover have "length (emplace (fst ?t) imp (pop q)) = length q"
      using lp by (simp add: emplace_def)
    ultimately show ?thesis using len q by simp
  next
    case call
    obtain r' d' where rem: "remove s r d (fst ?t) imp c = Some (r', d')"
      using remove_returns [OF alive] by blast
    with imp call have body: "loop_body s c r d q = Some (r', d', pop q)"
      by (simp add: loop_body_def Let_def)
    from remove_length [OF rem] len have l: "length r' = length r" "length d' = length r" by simp_all
    from remove_marks [OF rem] have "length (filter Not d) - 1 \<le> length (filter Not d')"
      using alive_update [of d "fst ?t"] by auto
    with q lp have "length (pop q) \<le> length (filter Not d')" by linarith
    with body l lp show ?thesis by simp
  next
    case keep
    with imp have "loop_body s c r d q = Some (r, d, pop q)"
      by (simp add: loop_body_def Let_def)
    moreover have "length (pop q) \<le> length (filter Not d)" using q lp by linarith
    ultimately show ?thesis using len lp by simp
  qed
qed

lemma simplify_loop_floor:
  assumes "length d = length r" and "3 \<le> length q" and "length q \<le> length (filter Not d)"
  shows "\<exists>r' d'. simplify_loop s c r d q = Some (r', d')
           \<and> length r' = length r \<and> length d' = length r \<and> 3 \<le> length (filter Not d')"
  using assms
proof (induction s c r d q rule: simplify_loop.induct)
  case (1 s c r d q)
  show ?case
  proof (cases "3 < length q")
    case False
    with "1.prems" show ?thesis by (subst simplify_loop.simps) simp
  next
    case True
    from loop_body_floor [OF "1.prems"(1) True "1.prems"(3)]
    obtain r1 d1 q1 where body: "loop_body s c r d q = Some (r1, d1, q1)"
      and inv: "length r1 = length r" "length d1 = length r"
        "3 \<le> length q1" "length q1 \<le> length (filter Not d1)"
      by blast
    have "\<exists>r' d'. simplify_loop s c r1 d1 q1 = Some (r', d')
            \<and> length r' = length r1 \<and> length d' = length r1 \<and> 3 \<le> length (filter Not d')"
      using True body inv by (intro "1.IH") simp_all
    moreover have "simplify_loop s c r d q = simplify_loop s c r1 d1 q1"
      using True body by (subst simplify_loop.simps) simp
    ultimately show ?thesis using inv by simp
  qed
qed

lemma add_initial_length:
  assumes "\<exists>j<length d. \<not> d ! j"
  shows "\<exists>q'. add_initial s p d c is q = Some q' \<and> length q' = length is + length q"
proof (induction "is" arbitrary: q)
  case Nil
  then show ?case by simp
next
  case (Cons i "is")
  obtain imp where imp: "importance s p d i c = Some imp"
    using importance_returns [OF assms] by blast
  from Cons [of "emplace i imp q"] imp show ?case by (simp add: emplace_def)
qed

lemma simplify_floor:
  assumes "(if is_closed then 2 else 3) < length polygon"
  shows "\<exists>r. simplify s polygon is_closed = Some r \<and> 3 \<le> length r \<and> length r \<le> length polygon"
proof -
  let ?n = "length polygon"
  let ?d = "replicate ?n False"
  from assms have n: "3 \<le> ?n" by (auto split: if_splits)
  have alive: "length (filter Not ?d) = ?n" by simp
  have "0 < ?n" using n by linarith
  then have "\<exists>j<length ?d. \<not> ?d ! j" by (intro exI [of _ 0]) simp
  from add_initial_length [OF this, of s polygon is_closed "[0 ..< ?n]" "[]"]
  obtain q where q: "add_initial s polygon ?d is_closed [0 ..< ?n] [] = Some q" "length q = ?n"
    by auto
  have "\<exists>r' d'. simplify_loop s is_closed polygon ?d q = Some (r', d')
           \<and> length r' = ?n \<and> length d' = ?n \<and> 3 \<le> length (filter Not d')"
    using n q(2) alive by (intro simplify_loop_floor) simp_all
  then obtain r' d' where loop: "simplify_loop s is_closed polygon ?d q = Some (r', d')"
    and l: "length r' = ?n" "length d' = ?n" "3 \<le> length (filter Not d')"
    by blast
  have lf: "length (filtered r' d') = length (filter Not d')"
    using l by (intro length_filtered) simp
  have "length (filter Not d') \<le> length d'" by (rule length_filter_le)
  with lf l have "3 \<le> length (filtered r' d')" "length (filtered r' d') \<le> ?n" by simp_all
  moreover have "simplify s polygon is_closed = Some (filtered r' d')"
    using assms q(1) loop by (auto simp: simplify_def Let_def)
  ultimately show ?thesis by simp
qed

lemma simplify_returns: "\<exists>r. simplify s polygon is_closed = Some r"
proof (cases "(if is_closed then 2 else 3) < length polygon")
  case True
  from simplify_floor [OF this] show ?thesis by blast
next
  case False
  then show ?thesis by (auto simp: simplify_def Let_def)
qed

subsection \<open>The ends of an open polyline\<close>

text \<open>
  The ends of an open polyline have the greatest importance, which is above every
  \<open>max_deviation\<close> squared that is a coordinate, so \<open>remove\<close> is never called on them;
  and the vertex that \<open>remove\<close> moves lies strictly between the ends.
\<close>

lemma previous_before:
  assumes "0 < v" and "v < length d" and "\<not> d ! 0" and "previousNotDeleted v d = Some b"
  shows "b < v"
proof -
  have e: "v + length d - 1 = (v - 1) + length d" using assms(1) by simp
  have step: "(v + length d - 1) mod length d = v - 1" unfolding e using assms(2) by simp
  have "v - 1 < length d" using assms(2) by simp
  moreover have "\<exists>j\<le>v - 1. \<not> d ! j" using assms(3) by (intro exI [of _ 0]) simp
  ultimately obtain k where "k \<le> v - 1" "previousNotDeleted_loop (v - 1) d = Some k"
    using previous_loop_down by blast
  moreover have "length d \<noteq> 0" using assms(2) by (cases d) auto
  then have "previousNotDeleted v d = previousNotDeleted_loop (v - 1) d"
    using step by (simp add: previousNotDeleted_def Let_def)
  ultimately show ?thesis using assms(1,4) by simp
qed

lemma next_after:
  assumes "v < length d - 1" and "\<not> d ! (length d - 1)" and "nextNotDeleted v d = Some a"
  shows "v < a"
proof -
  have step: "(v + 1) mod length d = Suc v" using assms(1) by simp
  have "Suc v < length d" using assms(1) by simp
  moreover have "\<exists>j\<ge>Suc v. j < length d \<and> \<not> d ! j"
    using assms(1,2) by (intro exI [of _ "length d - 1"]) auto
  ultimately obtain k where "Suc v \<le> k" "nextNotDeleted_loop (Suc v) d = Some k"
    using next_loop_up by blast
  moreover have "length d \<noteq> 0" using assms(1) by (cases d) auto
  then have "nextNotDeleted v d = nextNotDeleted_loop (Suc v) d"
    using step by (simp add: nextNotDeleted_def Let_def)
  ultimately show ?thesis using assms(3) by simp
qed

lemma importance_of_end:
  assumes "importance s r d v False = Some imp" and "imp < coord_max"
  shows "v \<noteq> 0 \<and> v \<noteq> length r - 1"
proof (rule ccontr)
  assume "\<not> (v \<noteq> 0 \<and> v \<noteq> length r - 1)"
  then have "v = 0 \<or> v = length r - 1" by blast
  then have "importance s r d v False = Some coord_max"
    by (simp add: importance_def)
  with assms show False by simp
qed

lemma loop_body_ends:
  assumes body: "loop_body s False r d q = Some (r1, d1, q1)"
    and ne: "q \<noteq> []"
    and len: "length d = length r"
    and idx: "\<forall>e\<in>set q. fst e < length r"
    and ends: "\<not> d ! 0" "\<not> d ! (length r - 1)"
    and small: "max_deviation s * max_deviation s < coord_max"
  shows "length r1 = length r \<and> length d1 = length r \<and> (\<forall>e\<in>set q1. fst e < length r)
       \<and> \<not> d1 ! 0 \<and> \<not> d1 ! (length r - 1)
       \<and> r1 ! 0 = r ! 0 \<and> r1 ! (length r - 1) = r ! (length r - 1)"
proof -
  let ?t = "top_entry q" and ?n = "length r"
  have "?t \<in> set q" using ne by (rule top_entry_in_set)
  with idx have v: "fst ?t < ?n" by simp
  have popped: "\<forall>e\<in>set (pop q). fst e < ?n"
    using idx by (auto simp: pop_def dest: notin_set_remove1)
  obtain imp where imp: "importance s r d (fst ?t) False = Some imp"
    using body by (auto simp: loop_body_def Let_def split: option.splits)
  consider (stale) "imp \<noteq> snd ?t"
    | (call) "imp = snd ?t" "imp \<le> max_deviation s * max_deviation s"
    | (keep) "imp = snd ?t" "\<not> imp \<le> max_deviation s * max_deviation s"
    by blast
  then show ?thesis
  proof cases
    case stale
    with body imp have "r1 = r" "d1 = d" "q1 = emplace (fst ?t) imp (pop q)"
      by (simp_all add: loop_body_def Let_def)
    with len ends v popped show ?thesis by (simp add: emplace_def)
  next
    case keep
    with body imp have "r1 = r" "d1 = d" "q1 = pop q"
      by (simp_all add: loop_body_def Let_def)
    with len ends popped show ?thesis by simp
  next
    case call
    with body imp have rem: "remove s r d (fst ?t) imp False = Some (r1, d1)" and q1: "q1 = pop q"
      by (auto simp: loop_body_def Let_def split: option.splits)
    from call small have "imp < coord_max" by simp
    from importance_of_end [OF imp this] have inner: "fst ?t \<noteq> 0" "fst ?t \<noteq> ?n - 1" by simp_all
    from remove_length [OF rem] len have l: "length r1 = ?n" "length d1 = ?n" by simp_all
    have flags: "\<not> d1 ! 0 \<and> \<not> d1 ! (?n - 1)"
      using remove_marks [OF rem] ends inner by auto
    have pos: "r1 ! 0 = r ! 0 \<and> r1 ! (?n - 1) = r ! (?n - 1)"
      using remove_shape [OF rem]
    proof
      assume "r1 = r \<and> (d1 = d \<or> d1 = d[fst ?t := True])"
      then show ?thesis by simp
    next
      assume "\<exists>b a m x. previousNotDeleted (fst ?t) d = Some b \<and> nextNotDeleted (fst ?t) d = Some a
                \<and> ((m = b \<and> (False \<or> b \<noteq> 0)) \<or> (m = a \<and> (False \<or> a \<noteq> ?n - 1)))
                \<and> r1 = r[m := x] \<and> d1 = d[fst ?t := True]"
      then obtain b a m x where b: "previousNotDeleted (fst ?t) d = Some b"
        and a: "nextNotDeleted (fst ?t) d = Some a"
        and m: "(m = b \<and> b \<noteq> 0) \<or> (m = a \<and> a \<noteq> ?n - 1)"
        and r1: "r1 = r[m := x]"
        by auto
      have "b < fst ?t"
        using inner(1) v ends(1) b len by (intro previous_before [of "fst ?t" d b]) simp_all
      then have b': "b \<noteq> ?n - 1" using v by simp
      have "fst ?t < a"
        using inner(2) v ends(2) a len by (intro next_after [of "fst ?t" d a]) simp_all
      then have a': "a \<noteq> 0" by simp
      from m b' a' have "m \<noteq> 0" "m \<noteq> ?n - 1" by auto
      with r1 show ?thesis by simp
    qed
    from l flags pos popped q1 show ?thesis by simp
  qed
qed

lemma simplify_loop_ends:
  assumes "simplify_loop s False r d q = Some (r', d')"
    and "length d = length r"
    and "\<forall>e\<in>set q. fst e < length r"
    and "\<not> d ! 0" and "\<not> d ! (length r - 1)"
    and "max_deviation s * max_deviation s < coord_max"
  shows "length r' = length r \<and> length d' = length r
       \<and> \<not> d' ! 0 \<and> \<not> d' ! (length r - 1)
       \<and> r' ! 0 = r ! 0 \<and> r' ! (length r - 1) = r ! (length r - 1)"
  using assms
proof (induction s "False" r d q rule: simplify_loop.induct)
  case (1 s r d q)
  show ?case
  proof (cases "3 < length q")
    case False
    with "1.prems" show ?thesis by (simp add: simplify_loop.simps [of s False r d q])
  next
    case True
    then have ne: "q \<noteq> []" by auto
    from True "1.prems"(1) obtain r1 d1 q1 where body: "loop_body s False r d q = Some (r1, d1, q1)"
      and rest: "simplify_loop s False r1 d1 q1 = Some (r', d')"
      by (auto simp: simplify_loop.simps [of s False r d q] split: option.splits)
    from loop_body_ends [OF body ne "1.prems"(2,3,4,5,6)]
    have inv: "length r1 = length r" "length d1 = length r" "\<forall>e\<in>set q1. fst e < length r"
        "\<not> d1 ! 0" "\<not> d1 ! (length r - 1)" "r1 ! 0 = r ! 0" "r1 ! (length r - 1) = r ! (length r - 1)"
      by simp_all
    have "length r' = length r1 \<and> length d' = length r1
       \<and> \<not> d' ! 0 \<and> \<not> d' ! (length r1 - 1)
       \<and> r' ! 0 = r1 ! 0 \<and> r' ! (length r1 - 1) = r1 ! (length r1 - 1)"
      using True body rest inv "1.prems"(6) by (intro "1.hyps") simp_all
    with inv show ?thesis by simp
  qed
qed

lemma add_initial_indices:
  assumes "add_initial s p d c is q = Some q'" and "\<forall>e\<in>set q. fst e < n" and "\<forall>i\<in>set is. i < n"
  shows "\<forall>e\<in>set q'. fst e < n"
  using assms
proof (induction "is" arbitrary: q)
  case Nil
  then show ?case by simp
next
  case (Cons i "is")
  from Cons.prems(1) obtain imp where imp: "importance s p d i c = Some imp"
    and rest: "add_initial s p d c is (emplace i imp q) = Some q'"
    by (auto split: option.splits)
  from Cons.prems(2,3) have "\<forall>e\<in>set (emplace i imp q). fst e < n" by (simp add: emplace_def)
  with Cons.IH [OF rest] Cons.prems(3) show ?case by simp
qed

lemma hd_filtered:
  assumes "0 < length r" and "\<not> d ! 0"
  shows "filtered r d \<noteq> [] \<and> hd (filtered r d) = r ! 0"
proof -
  have "[0 ..< length r] = 0 # [Suc 0 ..< length r]" using assms(1) by (rule upt_conv_Cons)
  with assms(2) show ?thesis by (simp add: filtered_def)
qed

lemma last_filtered:
  assumes "0 < length r" and "\<not> d ! (length r - 1)"
  shows "last (filtered r d) = r ! (length r - 1)"
proof -
  obtain m where m: "length r = Suc m" using assms(1) by (cases "length r") auto
  then have "[0 ..< length r] = [0 ..< m] @ [m]" by simp
  with assms(2) m show ?thesis by (simp add: filtered_def)
qed

lemma simplify_open_ends:
  assumes n: "3 \<le> length polygon"
    and small: "max_deviation s * max_deviation s < coord_max"
  shows "\<exists>r. simplify s polygon False = Some r \<and> r \<noteq> []
           \<and> hd r = hd polygon \<and> last r = last polygon"
proof (cases "length polygon = 3")
  case True
  then have "simplify s polygon False = Some polygon" by (simp add: simplify_def)
  moreover from True have "polygon \<noteq> []" by auto
  ultimately show ?thesis by simp
next
  case False
  let ?n = "length polygon"
  let ?d = "replicate ?n False"
  from n False have big: "3 < ?n" by simp
  have pos: "0 < ?n" using big by linarith
  then have ne: "polygon \<noteq> []" by simp
  then have "\<exists>j<length ?d. \<not> ?d ! j" by (intro exI [of _ 0]) simp
  from add_initial_length [OF this, of s polygon False "[0 ..< ?n]" "[]"]
  obtain q where q: "add_initial s polygon ?d False [0 ..< ?n] [] = Some q" and lq: "length q = ?n"
    by auto
  have "\<exists>r' d'. simplify_loop s False polygon ?d q = Some (r', d')
           \<and> length r' = ?n \<and> length d' = ?n \<and> 3 \<le> length (filter Not d')"
    using big lq by (intro simplify_loop_floor) simp_all
  then obtain r' d' where loop: "simplify_loop s False polygon ?d q = Some (r', d')"
    by blast
  have res: "simplify s polygon False = Some (filtered r' d')"
    using big q loop by (simp add: simplify_def Let_def)
  have idx: "\<forall>e\<in>set q. fst e < ?n"
    using q by (rule add_initial_indices) simp_all
  have d0: "\<not> ?d ! 0" using pos by simp
  have dl: "\<not> ?d ! (?n - 1)" using pos by simp
  have ld: "length ?d = ?n" by simp
  from simplify_loop_ends [OF loop ld idx d0 dl small]
  have l: "length r' = ?n" and f: "\<not> d' ! 0" "\<not> d' ! (?n - 1)"
    and p: "r' ! 0 = polygon ! 0" "r' ! (?n - 1) = polygon ! (?n - 1)"
    by simp_all
  have pos': "0 < length r'" using l pos by linarith
  have f': "\<not> d' ! (length r' - 1)" using f(2) l by simp
  have "filtered r' d' \<noteq> [] \<and> hd (filtered r' d') = r' ! 0"
    using pos' f(1) by (rule hd_filtered)
  moreover have "last (filtered r' d') = r' ! (length r' - 1)"
    using pos' f' by (rule last_filtered)
  moreover have "hd polygon = polygon ! 0" using ne by (rule hd_conv_nth)
  moreover have "last polygon = polygon ! (?n - 1)" using ne by (rule last_conv_nth)
  ultimately have "filtered r' d' \<noteq> [] \<and> hd (filtered r' d') = hd polygon
                   \<and> last (filtered r' d') = last polygon"
    using p l by simp
  with res show ?thesis by simp
qed

subsection \<open>Inputs at the structural minimum\<close>

text \<open>
  C1, as the code runs: the open polyline \<open>(0,0), (50,1), (100,0)\<close> has 3 vertices, which
  is the \<open>min_size\<close> the code takes for a polyline, so \<open>simplify\<close> returns it unchanged,
  with its middle vertex, whatever the tolerances are.
\<close>

theorem simplify_open_triple_unchanged:
  "simplify s [Point 0 0, Point 50 1, Point 100 0] False
     = Some [Point 0 0, Point 50 1, Point 100 0]"
  by (simp add: simplify_def)

text \<open>
  The loop itself stops at three queue entries for a polyline as for a polygon: of six
  points on one line, an open polyline keeps three.
\<close>

lemma simplify_open_collinear:
  "simplify \<lparr>max_resolution = 1000, max_deviation = 1, max_area_deviation = 0, min_resolution = 5\<rparr>
      [Point 0 0, Point 10 0, Point 20 0, Point 30 0, Point 40 0, Point 50 0] False
    = Some [Point 0 0, Point 40 0, Point 50 0]"
  by code_simp

text \<open>
  C2, as the code runs: a closed polygon of 2 vertices is at the \<open>min_size\<close> the code
  takes for a polygon, and \<open>simplify\<close> returns it unchanged, with fewer than 3 vertices.
  (Above the \<open>min_size\<close> the floor holds, by \<open>simplify_floor\<close>.)
\<close>

theorem simplify_closed_pair_unchanged:
  "simplify s [p, q] True = Some [p, q]"
  by (simp add: simplify_def)

text \<open>
  C7, as the code runs: an open polyline of 2 vertices is below the \<open>min_size\<close> the code
  takes for a polyline, and \<open>simplify\<close> returns the empty result, without either end.
  (From 3 vertices on both ends are kept in place, by \<open>simplify_open_ends\<close>.)
\<close>

theorem simplify_open_pair_empty:
  "simplify s [p, q] False = Some []"
  by (simp add: simplify_def)

subsection \<open>One turn of the loop\<close>

lemma importance_below_max:
  assumes "importance s result to_delete v is_closed = Some imp" and "imp < coord_max"
  shows "\<exists>b a. previousNotDeleted v to_delete = Some b \<and> nextNotDeleted v to_delete = Some a
           \<and> getDist2FromLine (result ! v) (result ! b) (result ! a) = imp"
  using assms
  by (auto simp: importance_def Let_def split: if_splits option.splits)

text \<open>
  C8, as the code has it: when the entry on top of the queue is up to date, for a vertex
  that is not a protected end, and the squared deviation of the vertex from the line
  through its current neighbours is at most \<open>min_resolution\<close> squared and at most
  \<open>max_deviation\<close> squared, the turn of the loop marks the vertex deleted and moves
  nothing, whatever \<open>max_resolution\<close> and the lengths of the adjacent edges are.
\<close>

theorem loop_body_deletes_noise:
  assumes top: "top_entry q = (v, imp)"
    and inner: "is_closed \<or> (v \<noteq> 0 \<and> v \<noteq> length result - 1)"
    and b: "previousNotDeleted v to_delete = Some b"
    and a: "nextNotDeleted v to_delete = Some a"
    and fresh: "getDist2FromLine (result ! v) (result ! b) (result ! a) = imp"
    and noise: "imp \<le> min_resolution s * min_resolution s"
    and allowed: "imp \<le> max_deviation s * max_deviation s"
  shows "loop_body s is_closed result to_delete q = Some (result, to_delete[v := True], pop q)"
proof -
  have "importance s result to_delete v is_closed = Some imp"
    using inner b a fresh noise by (auto simp: importance_def Let_def)
  then show ?thesis
    using top noise allowed by (simp add: loop_body_def Let_def remove_def)
qed

theorem loop_body_deletes_noise_witness:
  "top_entry [(4, 9223372036854775807), (3, 4), (2, 4), (1, 4), (0, 9223372036854775807)] = (1, 4)
   \<and> previousNotDeleted 1 [False, False, False, False, False] = Some 0
   \<and> nextNotDeleted 1 [False, False, False, False, False] = Some 2
   \<and> getDist2FromLine
         ([Point 0 0, Point 100 2, Point 200 0, Point 300 2, Point 400 0] ! 1)
         ([Point 0 0, Point 100 2, Point 200 0, Point 300 2, Point 400 0] ! 0)
         ([Point 0 0, Point 100 2, Point 200 0, Point 300 2, Point 400 0] ! 2) = 4
   \<and> loop_body \<lparr>max_resolution = 1, max_deviation = 10, max_area_deviation = 0, min_resolution = 5\<rparr>
         False [Point 0 0, Point 100 2, Point 200 0, Point 300 2, Point 400 0]
         [False, False, False, False, False]
         [(4, 9223372036854775807), (3, 4), (2, 4), (1, 4), (0, 9223372036854775807)]
       = Some ([Point 0 0, Point 100 2, Point 200 0, Point 300 2, Point 400 0],
               [False, True, False, False, False],
               [(4, 9223372036854775807), (3, 4), (2, 4), (0, 9223372036854775807)])"
proof -
  let ?p = "[Point 0 0, Point 100 2, Point 200 0, Point 300 2, Point 400 0]"
  let ?d = "[False, False, False, False, False]"
  let ?q = "[(4, 9223372036854775807), (3, 4), (2, 4), (1, 4), (0, 9223372036854775807)] :: entry list"
  let ?s = "\<lparr>max_resolution = 1, max_deviation = 10, max_area_deviation = 0, min_resolution = 5\<rparr>"
  have top: "top_entry ?q = (1, 4)" by code_simp
  have inner: "False \<or> ((1::nat) \<noteq> 0 \<and> 1 \<noteq> length ?p - 1)" by simp
  have b: "previousNotDeleted 1 ?d = Some 0" by code_simp
  have a: "nextNotDeleted 1 ?d = Some 2" by code_simp
  have fresh: "getDist2FromLine (?p ! 1) (?p ! 0) (?p ! 2) = 4" by code_simp
  have noise: "4 \<le> min_resolution ?s * min_resolution ?s" by simp
  have allowed: "4 \<le> max_deviation ?s * max_deviation ?s" by simp
  have upd: "?d[1 := True] = [False, True, False, False, False]" by simp
  have popped: "pop ?q = [(4, 9223372036854775807), (3, 4), (2, 4), (0, 9223372036854775807)]"
    by code_simp
  from loop_body_deletes_noise [OF top inner b a fresh noise allowed]
  have "loop_body ?s False ?p ?d ?q = Some (?p, ?d[1 := True], pop ?q)" .
  then have "loop_body ?s False ?p ?d ?q
               = Some (?p, [False, True, False, False, False],
                       [(4, 9223372036854775807), (3, 4), (2, 4), (0, 9223372036854775807)])"
    by (simp only: upd popped)
  with top b a fresh show ?thesis by (intro conjI)
qed

text \<open>
  The claim C8 as it is stated fails: the deletion is gated by \<open>max_deviation\<close>. With
  \<open>max_deviation = 1\<close> and \<open>min_resolution = 5\<close>, the vertex \<open>(100, 2)\<close> of the open
  polyline below deviates by 2 from the line through its neighbours, within the minimum
  resolution, and is kept, as all 5 vertices are.
\<close>

theorem noise_vertex_kept_counterexample:
  "getDist2FromLine (Point 100 2) (Point 0 0) (Point 200 0)
      \<le> min_resolution \<lparr>max_resolution = 1000, max_deviation = 1, max_area_deviation = 0, min_resolution = 5\<rparr>
        * min_resolution \<lparr>max_resolution = 1000, max_deviation = 1, max_area_deviation = 0, min_resolution = 5\<rparr>
   \<and> simplify \<lparr>max_resolution = 1000, max_deviation = 1, max_area_deviation = 0, min_resolution = 5\<rparr>
         [Point 0 0, Point 100 2, Point 200 0, Point 300 2, Point 400 0] False
       = Some [Point 0 0, Point 100 2, Point 200 0, Point 300 2, Point 400 0]"
  by code_simp

text \<open>
  C9, as the code has it: a vertex that a turn of the loop marks deleted has, at that
  moment, a squared deviation from the line through its current neighbours that is not
  deleted of at most \<open>max_deviation\<close> squared (for a \<open>max_deviation\<close> whose square is a
  coordinate below the greatest one). The bound is on the single removal, between the
  positions the vertices have then.
\<close>

theorem loop_body_deviation_bound:
  assumes body: "loop_body s is_closed result to_delete q = Some (result', to_delete', q')"
    and small: "max_deviation s * max_deviation s < coord_max"
    and v: "\<not> to_delete ! v" "to_delete' ! v"
  shows "\<exists>b a. previousNotDeleted v to_delete = Some b \<and> nextNotDeleted v to_delete = Some a
           \<and> getDist2FromLine (result ! v) (result ! b) (result ! a)
                \<le> max_deviation s * max_deviation s"
proof -
  let ?t = "top_entry q"
  from v have changed: "to_delete' \<noteq> to_delete" by auto
  obtain imp where imp: "importance s result to_delete (fst ?t) is_closed = Some imp"
    using body by (auto simp: loop_body_def Let_def split: option.splits)
  have fresh: "imp = snd ?t"
    using body imp changed by (auto simp: loop_body_def Let_def split: if_splits)
  have le: "imp \<le> max_deviation s * max_deviation s"
    using body imp changed fresh by (auto simp: loop_body_def Let_def split: if_splits)
  have rem: "remove s result to_delete (fst ?t) imp is_closed = Some (result', to_delete')"
    using body imp changed fresh le
    by (auto simp: loop_body_def Let_def split: if_splits option.splits)
  from remove_marks [OF rem] changed have "to_delete' = to_delete[fst ?t := True]" by simp
  with v have "v = fst ?t" by (metis nth_list_update_neq)
  moreover from le small have "imp < coord_max" by simp
  ultimately show ?thesis using importance_below_max [OF imp] le by auto
qed

theorem loop_body_deviation_bound_witness:
  "loop_body \<lparr>max_resolution = 1000, max_deviation = 10, max_area_deviation = 0, min_resolution = 5\<rparr>
      False [Point 0 0, Point 0 15, Point 3 4, Point 45 0, Point 75 40]
      [False, False, False, False, False]
      [(4, 9223372036854775807), (3, 500), (2, 90), (1, 81), (0, 9223372036854775807)]
    = Some ([Point 0 0, Point 0 15, Point 3 4, Point 45 0, Point 75 40],
            [False, True, False, False, False],
            [(4, 9223372036854775807), (3, 500), (2, 90), (0, 9223372036854775807)])
   \<and> (\<exists>b a. previousNotDeleted 1 [False, False, False, False, False] = Some b
          \<and> nextNotDeleted 1 [False, False, False, False, False] = Some a
          \<and> getDist2FromLine
                ([Point 0 0, Point 0 15, Point 3 4, Point 45 0, Point 75 40] ! 1)
                ([Point 0 0, Point 0 15, Point 3 4, Point 45 0, Point 75 40] ! b)
                ([Point 0 0, Point 0 15, Point 3 4, Point 45 0, Point 75 40] ! a)
              \<le> 10 * 10)"
proof -
  let ?p = "[Point 0 0, Point 0 15, Point 3 4, Point 45 0, Point 75 40]"
  let ?d = "[False, False, False, False, False]"
  let ?d' = "[False, True, False, False, False]"
  let ?q = "[(4, 9223372036854775807), (3, 500), (2, 90), (1, 81), (0, 9223372036854775807)] :: entry list"
  let ?q' = "[(4, 9223372036854775807), (3, 500), (2, 90), (0, 9223372036854775807)] :: entry list"
  let ?s = "\<lparr>max_resolution = 1000, max_deviation = 10, max_area_deviation = 0, min_resolution = 5\<rparr>"
  have body: "loop_body ?s False ?p ?d ?q = Some (?p, ?d', ?q')" by code_simp
  have small: "max_deviation ?s * max_deviation ?s < coord_max" by (simp add: coord_max_def)
  have v1: "\<not> ?d ! 1" and v2: "?d' ! 1" by simp_all
  from loop_body_deviation_bound [OF body small v1 v2]
  have "\<exists>b a. previousNotDeleted 1 ?d = Some b \<and> nextNotDeleted 1 ?d = Some a
          \<and> getDist2FromLine (?p ! 1) (?p ! b) (?p ! a) \<le> 10 * 10"
    by simp
  with body show ?thesis by (intro conjI)
qed

text \<open>
  The claim C9 as it is stated fails, because single removals add up. With
  \<open>max_deviation = 10\<close> the open polyline below loses \<open>(0, 15)\<close>, which is 9 from the
  line through \<open>(0, 0)\<close> and \<open>(3, 4)\<close>, and then \<open>(3, 4)\<close>, which is 4 from the line
  through \<open>(0, 0)\<close> and \<open>(45, 0)\<close>; the removed \<open>(0, 15)\<close> is 15 from the nearest line of
  the final contour.
\<close>

theorem deviation_accumulates_counterexample:
  "simplify \<lparr>max_resolution = 100000, max_deviation = 10, max_area_deviation = 0, min_resolution = 5\<rparr>
      [Point 0 0, Point 0 15, Point 3 4, Point 45 0, Point 75 40] False
    = Some [Point 0 0, Point 45 0, Point 75 40]
   \<and> \<not> within_deviation 10 (Point 0 15) [Point 0 0, Point 45 0, Point 75 40] False"
proof
  show "simplify \<lparr>max_resolution = 100000, max_deviation = 10, max_area_deviation = 0, min_resolution = 5\<rparr>
      [Point 0 0, Point 0 15, Point 3 4, Point 45 0, Point 75 40] False
    = Some [Point 0 0, Point 45 0, Point 75 40]"
    by code_simp
  show "\<not> within_deviation 10 (Point 0 15) [Point 0 0, Point 45 0, Point 75 40] False"
    by (simp add: within_deviation_def edges_def line_dist2_def psub_def vSize2_def cross_def)
qed

end
